theory Spec2Isabelle
  imports Main "HOL-Library.Multiset" "HOL-Library.Sublist"
begin

section \<open>Threads, std::mutex and schedules\<close>

text \<open>
  The three programs start threads that share memory and synchronise with a
  \<^verbatim>\<open>std::mutex\<close>. A program is modelled as a machine whose state holds the shared
  memory, one record per started thread (its arguments and its program point) and the
  program point of \<^verbatim>\<open>main\<close>. One step executes one statement of one thread; which
  thread steps is chosen by a schedule, so the executions of a program are its step
  function run over all schedules. A step that cannot be taken (the thread waits for a
  mutex or for a join, or has returned) is \<open>None\<close>.

  A mutex is free (\<open>None\<close>) or owned by one thread (\<open>Some t\<close>). \<^verbatim>\<open>lock()\<close> by thread
  \<open>t\<close> succeeds on a free mutex and otherwise does not return yet; \<^verbatim>\<open>unlock()\<close> by a
  thread that does not own the mutex is undefined behaviour, which is \<open>None\<close> as well.
\<close>

type_synonym tid = nat

type_synonym mutex = "tid option"

definition mutex_lock :: "tid \<Rightarrow> mutex \<Rightarrow> mutex option" where
  "mutex_lock t m = (case m of None \<Rightarrow> Some (Some t) | Some u \<Rightarrow> None)"

definition mutex_unlock :: "tid \<Rightarrow> mutex \<Rightarrow> mutex option" where
  "mutex_unlock t m = (if m = Some t then Some None else None)"

datatype actor = Main | Thread tid

text \<open>
  The program point of \<^verbatim>\<open>main\<close>: creating the threads that are still to be started
  (one per element of the list), joining thread \<open>k\<close>, writing the final
  \<^verbatim>\<open>std::endl\<close> (scrambled.cpp and unscrambled.cpp only), and returned with an exit
  status.

  An execution is a schedule, the list of who takes the next step, all of whose steps can
  be taken; \<open>exec\<close> runs the step function of a program over it.
\<close>

datatype 'a main_pc = Spawning "'a list" | Joining nat | Endl | Exited int

record ('sh, 'th, 'a) process =
  shared :: 'sh
  threads :: "'th list"
  main_pc :: "'a main_pc"

fun exec :: "('e \<Rightarrow> 's \<Rightarrow> 's option) \<Rightarrow> 'e list \<Rightarrow> 's \<Rightarrow> 's option" where
  "exec f [] s = Some s"
| "exec f (e # es) s = (case f e s of None \<Rightarrow> None | Some s' \<Rightarrow> exec f es s')"

record console =
  cout :: string

definition endl :: string where
  "endl = [CHR 0x0A]"

section \<open>scrambled.cpp and unscrambled.cpp: printString\<close>

text \<open>
  A thread running \<^verbatim>\<open>printString(text)\<close> holds its argument (\<open>msg\<close>: the element of
  \<^verbatim>\<open>messages\<close> it was started with) and its program point: at the entry of the
  function, at position \<open>k\<close> of the range-for over the string, or returned. The
  \<^verbatim>\<open>sleep_for\<close> after each character changes no state; every step boundary is already a
  point where another thread may run.
\<close>

datatype printString_pc = Entry | InLoop nat | Returned

record printer =
  msg :: string
  ppc :: printString_pc

record sink = console +
  coutMutex :: mutex

text \<open>The range-for of both files: \<^verbatim>\<open>std::cout << c\<close> for the character at \<open>k\<close>.\<close>

definition emit_char :: "printer \<Rightarrow> nat \<Rightarrow> sink \<Rightarrow> printer \<times> sink" where
  "emit_char p k sh = (p\<lparr>ppc := InLoop (Suc k)\<rparr>, sh\<lparr>cout := cout sh @ [msg p ! k]\<rparr>)"

text \<open>unscrambled.cpp: \<^verbatim>\<open>coutMutex.lock()\<close>, the loop, \<^verbatim>\<open>coutMutex.unlock()\<close>.\<close>

definition unscrambled_printString :: "tid \<Rightarrow> printer \<Rightarrow> sink \<Rightarrow> (printer \<times> sink) option" where
  "unscrambled_printString t p sh =
     (case ppc p of
        Entry \<Rightarrow>
          (case mutex_lock t (coutMutex sh) of
             None \<Rightarrow> None
           | Some m \<Rightarrow> Some (p\<lparr>ppc := InLoop 0\<rparr>, sh\<lparr>coutMutex := m\<rparr>))
      | InLoop k \<Rightarrow>
          (if k < length (msg p) then Some (emit_char p k sh)
           else (case mutex_unlock t (coutMutex sh) of
                   None \<Rightarrow> None
                 | Some m \<Rightarrow> Some (p\<lparr>ppc := Returned\<rparr>, sh\<lparr>coutMutex := m\<rparr>)))
      | Returned \<Rightarrow> None)"

text \<open>scrambled.cpp: the loop alone; the function never touches a mutex.\<close>

definition scrambled_loop :: "printer \<Rightarrow> nat \<Rightarrow> sink \<Rightarrow> printer \<times> sink" where
  "scrambled_loop p k sh =
     (if k < length (msg p) then emit_char p k sh else (p\<lparr>ppc := Returned\<rparr>, sh))"

definition scrambled_printString :: "tid \<Rightarrow> printer \<Rightarrow> sink \<Rightarrow> (printer \<times> sink) option" where
  "scrambled_printString t p sh =
     (case ppc p of
        Entry \<Rightarrow> Some (scrambled_loop p 0 sh)
      | InLoop k \<Rightarrow> Some (scrambled_loop p k sh)
      | Returned \<Rightarrow> None)"

type_synonym sink_process = "(sink, printer, string) process"

text \<open>
  \<^verbatim>\<open>main\<close> of both files: one \<^verbatim>\<open>threads.emplace_back(printString, msg)\<close> per message,
  one \<^verbatim>\<open>t.join()\<close> per thread (which waits until that thread has returned),
  \<^verbatim>\<open>std::cout << std::endl\<close> and \<^verbatim>\<open>return 0\<close>.
\<close>

definition sink_main :: "sink_process \<Rightarrow> sink_process option" where
  "sink_main s =
     (case main_pc s of
        Spawning [] \<Rightarrow> Some (s\<lparr>main_pc := Joining 0\<rparr>)
      | Spawning (m # ms) \<Rightarrow>
          Some (s\<lparr>threads := threads s @ [\<lparr>msg = m, ppc = Entry\<rparr>], main_pc := Spawning ms\<rparr>)
      | Joining k \<Rightarrow>
          (if k < length (threads s)
           then (if ppc (threads s ! k) = Returned then Some (s\<lparr>main_pc := Joining (Suc k)\<rparr>)
                 else None)
           else Some (s\<lparr>main_pc := Endl\<rparr>))
      | Endl \<Rightarrow>
          Some (s\<lparr>shared := (shared s)\<lparr>cout := cout (shared s) @ endl\<rparr>, main_pc := Exited 0\<rparr>)
      | Exited r \<Rightarrow> None)"

definition sink_step ::
  "(tid \<Rightarrow> printer \<Rightarrow> sink \<Rightarrow> (printer \<times> sink) option) \<Rightarrow> actor \<Rightarrow> sink_process \<Rightarrow> sink_process option" where
  "sink_step printString a s =
     (case a of
        Main \<Rightarrow> sink_main s
      | Thread t \<Rightarrow>
          (if t < length (threads s)
           then (case printString t (threads s ! t) (shared s) of
                   None \<Rightarrow> None
                 | Some (p, sh) \<Rightarrow> Some (s\<lparr>shared := sh, threads := (threads s)[t := p]\<rparr>))
           else None))"

definition sink_init :: "string list \<Rightarrow> sink_process" where
  "sink_init messages =
     \<lparr>shared = \<lparr>cout = [], coutMutex = None\<rparr>, threads = [], main_pc = Spawning messages\<rparr>"

definition messages :: "string list" where
  "messages = [''ABC'', ''123'', ''xyz'']"

definition unscrambled :: "actor list \<Rightarrow> sink_process option" where
  "unscrambled sched = exec (sink_step unscrambled_printString) sched (sink_init messages)"

definition scrambled :: "actor list \<Rightarrow> sink_process option" where
  "scrambled sched = exec (sink_step scrambled_printString) sched (sink_init messages)"

section \<open>The internally synchronized class Vector\<close>

text \<open>
  Class \<^verbatim>\<open>Vector\<close> has two members, the mutex \<open>mut\<close> and the \<^verbatim>\<open>std::vector<int>\<close>
  \<open>vec\<close>. \<^verbatim>\<open>main\<close> creates one object of the class and passes it by reference to
  every thread, so the memory the threads share is that object and \<^verbatim>\<open>std::cout\<close>.
  The elements are C++ \<^verbatim>\<open>int\<close>s; the program does no arithmetic on them (the values
  pushed are the loop counter, 0 to 4), so they are modelled as \<open>int\<close>.
\<close>

record vshared = console +
  mut :: mutex
  vec :: "int list"

datatype error = bad_alloc

datatype 'a outcome = Returns 'a | Throws error 'a | Blocks | Undefined

text \<open>
  \<^verbatim>\<open>std::vector<int>::push_back\<close> appends the value, or throws \<^verbatim>\<open>std::bad_alloc\<close>
  and leaves the vector unchanged when the allocator cannot provide storage. Whether it
  can is not decided by the program; it is the parameter \<open>ok\<close>.
\<close>

definition vector_push_back :: "bool \<Rightarrow> int \<Rightarrow> int list \<Rightarrow> error + int list" where
  "vector_push_back ok i v = (if ok then Inr (v @ [i]) else Inl bad_alloc)"

definition lock_mut :: "tid \<Rightarrow> vshared \<Rightarrow> vshared option" where
  "lock_mut t sh = (case mutex_lock t (mut sh) of None \<Rightarrow> None | Some m \<Rightarrow> Some (sh\<lparr>mut := m\<rparr>))"

definition unlock_mut :: "tid \<Rightarrow> vshared \<Rightarrow> vshared option" where
  "unlock_mut t sh = (case mutex_unlock t (mut sh) of None \<Rightarrow> None | Some m \<Rightarrow> Some (sh\<lparr>mut := m\<rparr>))"

text \<open>\<^verbatim>\<open>std::cout << i\<close> for an \<^verbatim>\<open>int\<close>: the decimal digits, after a minus sign if negative.\<close>

definition digit :: "nat \<Rightarrow> char" where
  "digit n = ''0123456789'' ! n"

fun show_nat :: "nat \<Rightarrow> string" where
  "show_nat n = (if n < 10 then [digit n] else show_nat (n div 10) @ [digit (n mod 10)])"

declare show_nat.simps [simp del]

definition show_int :: "int \<Rightarrow> string" where
  "show_int i = (if i < 0 then CHR ''-'' # show_nat (nat (- i)) else show_nat (nat i))"

definition emit :: "string \<Rightarrow> vshared \<Rightarrow> vshared" where
  "emit str sh = sh\<lparr>cout := cout sh @ str\<rparr>"

subsection \<open>The member functions, called by thread \<open>t\<close> and run to their end\<close>

text \<open>
  \<^verbatim>\<open>push_back\<close>: \<^verbatim>\<open>mut.lock(); vec.push_back(i); mut.unlock();\<close>. The call does not
  proceed while another thread owns the mutex (\<open>Blocks\<close>). The function has no handler
  and no guard object: an exception of \<^verbatim>\<open>vec.push_back\<close> leaves it at once, past the
  \<^verbatim>\<open>unlock\<close>.
\<close>

definition push_back :: "bool \<Rightarrow> tid \<Rightarrow> int \<Rightarrow> vshared \<Rightarrow> vshared outcome" where
  "push_back ok t i sh =
     (case lock_mut t sh of
        None \<Rightarrow> Blocks
      | Some sh1 \<Rightarrow>
          (case vector_push_back ok i (vec sh1) of
             Inl e \<Rightarrow> Throws e sh1
           | Inr v \<Rightarrow>
               (case unlock_mut t (sh1\<lparr>vec := v\<rparr>) of
                  None \<Rightarrow> Undefined
                | Some sh2 \<Rightarrow> Returns sh2)))"

text \<open>
  \<^verbatim>\<open>print\<close>: \<^verbatim>\<open>mut.lock(); for (auto i : vec) std::cout << i << ", ";
  std::cout << std::endl; mut.unlock();\<close>.
\<close>

fun print_loop :: "int list \<Rightarrow> vshared \<Rightarrow> vshared" where
  "print_loop [] sh = sh"
| "print_loop (i # rest) sh = print_loop rest (emit (show_int i @ '', '') sh)"

definition Vector_print :: "tid \<Rightarrow> vshared \<Rightarrow> vshared outcome" where
  "Vector_print t sh =
     (case lock_mut t sh of
        None \<Rightarrow> Blocks
      | Some sh1 \<Rightarrow>
          (case unlock_mut t (emit endl (print_loop (vec sh1) sh1)) of
             None \<Rightarrow> Undefined
           | Some sh2 \<Rightarrow> Returns sh2))"

subsection \<open>The threads, statement by statement\<close>

text \<open>
  A thread makes a sequence of calls on the shared object. \<^verbatim>\<open>func\<close> is the loop
  \<^verbatim>\<open>for (int i = 0; i < 5; ++i) { vec.push_back(i); sleep_for(50ms); vec.print(); }\<close>:
  its control flow does not depend on the shared memory, so it is the list of calls it
  makes.
\<close>

datatype call = PushBack int | SleepFor | Print

function func_loop :: "int \<Rightarrow> call list" where
  "func_loop i = (if i < 5 then [PushBack i, SleepFor, Print] @ func_loop (i + 1) else [])"
  by pat_completeness auto
termination
  by (relation "measure (\<lambda>i. nat (5 - i))") auto

declare func_loop.simps [simp del]

definition func :: "call list" where
  "func = func_loop 0"

text \<open>
  The program points of a thread: between two calls (\<open>Idle\<close>); in \<^verbatim>\<open>push_back(i)\<close>
  after \<^verbatim>\<open>mut.lock()\<close>, inside \<^verbatim>\<open>vec.push_back(i)\<close> and after it; in \<^verbatim>\<open>print()\<close> at
  the loop test with the iterator at index \<open>k\<close>, holding the copy \<open>i\<close> of the element
  read at \<open>k\<close>, before \<^verbatim>\<open>std::endl\<close> and before \<^verbatim>\<open>mut.unlock()\<close>; and left by an
  exception that nothing catches.

  \<^verbatim>\<open>vec.push_back(i)\<close> is not one indivisible action on the shared vector: it obtains
  storage and reads where the sequence ends (or throws), and then stores the element at
  that position and sets the new size. \<open>PushStore i n\<close> is the point between the two,
  with \<open>n\<close> the end position that was read: an element another thread stored in between
  would be overwritten.
\<close>

datatype func_pc =
    Idle
  | PushLocked int
  | PushStore int nat
  | PushUnlock
  | PrintTest nat
  | PrintEmit nat int
  | PrintEndl
  | PrintUnlock
  | Terminated

record worker =
  todo :: "call list"
  wpc :: func_pc

definition func_step :: "bool \<Rightarrow> tid \<Rightarrow> worker \<Rightarrow> vshared \<Rightarrow> (worker \<times> vshared) option" where
  "func_step ok t w sh =
     (case wpc w of
        Idle \<Rightarrow>
          (case todo w of
             [] \<Rightarrow> None
           | PushBack i # cs \<Rightarrow>
               (case lock_mut t sh of
                  None \<Rightarrow> None
                | Some sh1 \<Rightarrow> Some (\<lparr>todo = cs, wpc = PushLocked i\<rparr>, sh1))
           | SleepFor # cs \<Rightarrow> Some (\<lparr>todo = cs, wpc = Idle\<rparr>, sh)
           | Print # cs \<Rightarrow>
               (case lock_mut t sh of
                  None \<Rightarrow> None
                | Some sh1 \<Rightarrow> Some (\<lparr>todo = cs, wpc = PrintTest 0\<rparr>, sh1)))
      | PushLocked i \<Rightarrow>
          (if ok then Some (w\<lparr>wpc := PushStore i (length (vec sh))\<rparr>, sh)
           else Some (w\<lparr>wpc := Terminated\<rparr>, sh))
      | PushStore i n \<Rightarrow> Some (w\<lparr>wpc := PushUnlock\<rparr>, sh\<lparr>vec := take n (vec sh) @ [i]\<rparr>)
      | PushUnlock \<Rightarrow>
          (case unlock_mut t sh of
             None \<Rightarrow> None
           | Some sh1 \<Rightarrow> Some (w\<lparr>wpc := Idle\<rparr>, sh1))
      | PrintTest k \<Rightarrow>
          (if k < length (vec sh) then Some (w\<lparr>wpc := PrintEmit k (vec sh ! k)\<rparr>, sh)
           else Some (w\<lparr>wpc := PrintEndl\<rparr>, sh))
      | PrintEmit k i \<Rightarrow> Some (w\<lparr>wpc := PrintTest (Suc k)\<rparr>, emit (show_int i @ '', '') sh)
      | PrintEndl \<Rightarrow> Some (w\<lparr>wpc := PrintUnlock\<rparr>, emit endl sh)
      | PrintUnlock \<Rightarrow>
          (case unlock_mut t sh of
             None \<Rightarrow> None
           | Some sh1 \<Rightarrow> Some (w\<lparr>wpc := Idle\<rparr>, sh1))
      | Terminated \<Rightarrow> None)"

type_synonym vector_process = "(vshared, worker, call list) process"

definition finished :: "worker \<Rightarrow> bool" where
  "finished w \<longleftrightarrow> wpc w = Idle \<and> todo w = []"

text \<open>
  An exception that leaves the function of a \<^verbatim>\<open>std::thread\<close> calls
  \<^verbatim>\<open>std::terminate\<close>: the process is aborted and no thread runs any further.
\<close>

definition aborted :: "vector_process \<Rightarrow> bool" where
  "aborted s \<longleftrightarrow> list_ex (\<lambda>w. wpc w = Terminated) (threads s)"

text \<open>
  \<^verbatim>\<open>main\<close>: one \<^verbatim>\<open>std::thread\<close> per thread function, one \<^verbatim>\<open>join()\<close> per thread (which
  waits until that thread has made all its calls), and the end of \<^verbatim>\<open>main\<close>, which
  returns 0. This \<^verbatim>\<open>main\<close> writes no \<^verbatim>\<open>std::endl\<close> and is never at \<open>Endl\<close>.
\<close>

definition vector_main :: "vector_process \<Rightarrow> vector_process option" where
  "vector_main s =
     (case main_pc s of
        Spawning [] \<Rightarrow> Some (s\<lparr>main_pc := Joining 0\<rparr>)
      | Spawning (p # ps) \<Rightarrow>
          Some (s\<lparr>threads := threads s @ [\<lparr>todo = p, wpc = Idle\<rparr>], main_pc := Spawning ps\<rparr>)
      | Joining k \<Rightarrow>
          (if k < length (threads s)
           then (if finished (threads s ! k) then Some (s\<lparr>main_pc := Joining (Suc k)\<rparr>) else None)
           else Some (s\<lparr>main_pc := Exited 0\<rparr>))
      | Endl \<Rightarrow> None
      | Exited r \<Rightarrow> None)"

text \<open>
  A schedule entry \<open>(a, ok)\<close> lets \<open>a\<close> take its next step; \<open>ok\<close> tells whether the
  allocator can provide storage, should that step be \<^verbatim>\<open>vec.push_back\<close>.
\<close>

definition vector_step :: "actor \<times> bool \<Rightarrow> vector_process \<Rightarrow> vector_process option" where
  "vector_step c s =
     (if aborted s then None
      else (case fst c of
              Main \<Rightarrow> vector_main s
            | Thread t \<Rightarrow>
                (if t < length (threads s)
                 then (case func_step (snd c) t (threads s ! t) (shared s) of
                         None \<Rightarrow> None
                       | Some (w, sh) \<Rightarrow> Some (s\<lparr>shared := sh, threads := (threads s)[t := w]\<rparr>))
                 else None)))"

definition vector_init :: "call list list \<Rightarrow> vector_process" where
  "vector_init progs =
     \<lparr>shared = \<lparr>cout = [], mut = None, vec = []\<rparr>, threads = [], main_pc = Spawning progs\<rparr>"

definition vector_program :: "(actor \<times> bool) list \<Rightarrow> vector_process option" where
  "vector_program sched = exec vector_step sched (vector_init [func, func, func])"

section \<open>Notions used to state the properties of printString\<close>

text \<open>
  \<open>in_progress\<close> is what the call that owns \<open>coutMutex\<close> has written so far;
  \<open>final_endl\<close> is the \<^verbatim>\<open>std::endl\<close> of \<^verbatim>\<open>main\<close> once it has been written;
  \<open>unspawned\<close> are the arguments of the threads \<^verbatim>\<open>main\<close> has still to create, and
  \<open>joined\<close> says that the threads \<^verbatim>\<open>main\<close> has joined have ended.
\<close>

definition final_endl :: "sink_process \<Rightarrow> string" where
  "final_endl s = (case main_pc s of Exited r \<Rightarrow> endl | _ \<Rightarrow> [])"

definition in_progress :: "sink_process \<Rightarrow> string" where
  "in_progress s =
     (case coutMutex (shared s) of
        None \<Rightarrow> []
      | Some t \<Rightarrow> (case ppc (threads s ! t) of InLoop k \<Rightarrow> take k (msg (threads s ! t)) | _ \<Rightarrow> []))"

definition unspawned :: "('sh, 'th, 'a) process \<Rightarrow> 'a list" where
  "unspawned s = (case main_pc s of Spawning ms \<Rightarrow> ms | _ \<Rightarrow> [])"

definition joined :: "('th \<Rightarrow> bool) \<Rightarrow> ('sh, 'th, 'a) process \<Rightarrow> bool" where
  "joined fin s =
     (case main_pc s of
        Spawning ms \<Rightarrow> True
      | Joining k \<Rightarrow> k \<le> length (threads s) \<and> (\<forall>j<k. fin (threads s ! j))
      | _ \<Rightarrow> (\<forall>j<length (threads s). fin (threads s ! j)))"

text \<open>
  The invariant of unscrambled.cpp, for the messages \<open>msgs\<close> of \<^verbatim>\<open>main\<close>: \<open>fin\<close> lists
  the calls that have returned, in the order in which they released the mutex.
\<close>

definition sink_inv :: "string list \<Rightarrow> sink_process \<Rightarrow> tid list \<Rightarrow> bool" where
  "sink_inv msgs s fin \<longleftrightarrow>
     map msg (threads s) @ unspawned s = msgs \<and>
     distinct fin \<and>
     set fin = {t. t < length (threads s) \<and> ppc (threads s ! t) = Returned} \<and>
     (\<forall>t<length (threads s). \<forall>k. ppc (threads s ! t) = InLoop k \<longrightarrow> coutMutex (shared s) = Some t) \<and>
     (\<forall>t. coutMutex (shared s) = Some t \<longrightarrow> t < length (threads s) \<and> (\<exists>k. ppc (threads s ! t) = InLoop k)) \<and>
     cout (shared s) = concat (map ((!) msgs) fin) @ in_progress s @ final_endl s \<and>
     joined (\<lambda>p. ppc p = Returned) s"

text \<open>Two schedules, and the state the first one ends in.\<close>

definition sched_123 :: "actor list" where
  "sched_123 = [Main, Main, Thread 1, Main, Thread 1, Thread 1, Thread 1, Thread 1,
                Thread 0, Thread 0, Thread 0, Thread 0, Thread 0,
                Thread 2, Thread 2, Thread 2, Thread 2, Thread 2,
                Main, Main, Main, Main, Main, Main]"

definition sched_mixed :: "actor list" where
  "sched_mixed = [Main, Main, Main,
                  Thread 0, Thread 1, Thread 2, Thread 0, Thread 1, Thread 2,
                  Thread 0, Thread 1, Thread 2, Thread 0, Thread 1, Thread 2,
                  Main, Main, Main, Main, Main, Main]"

definition final_123 :: sink_process where
  "final_123 =
     \<lparr>shared = \<lparr>cout = ''123ABCxyz'' @ endl, coutMutex = None\<rparr>,
      threads = [\<lparr>msg = ''ABC'', ppc = Returned\<rparr>, \<lparr>msg = ''123'', ppc = Returned\<rparr>,
                 \<lparr>msg = ''xyz'', ppc = Returned\<rparr>],
      main_pc = Exited 0\<rparr>"

definition final_mixed :: sink_process where
  "final_mixed =
     \<lparr>shared = \<lparr>cout = ''A1xB2yC3z'' @ endl, coutMutex = None\<rparr>,
      threads = [\<lparr>msg = ''ABC'', ppc = Returned\<rparr>, \<lparr>msg = ''123'', ppc = Returned\<rparr>,
                 \<lparr>msg = ''xyz'', ppc = Returned\<rparr>],
      main_pc = Exited 0\<rparr>"

section \<open>Notions used to state the properties of Vector\<close>

text \<open>
  The invariant of the mutex \<open>mut\<close>: a thread that is inside a member function owns the
  mutex, the owner is inside a member function, and what the owner has read of the
  vector (the end position in \<^verbatim>\<open>push_back\<close>, the element in \<^verbatim>\<open>print\<close>) is still what
  the vector holds.
\<close>

definition local_ok :: "func_pc \<Rightarrow> int list \<Rightarrow> bool" where
  "local_ok pc v =
     (case pc of
        PushStore i n \<Rightarrow> n = length v
      | PrintEmit k i \<Rightarrow> k < length v \<and> v ! k = i
      | _ \<Rightarrow> True)"

definition lock_inv :: "vector_process \<Rightarrow> bool" where
  "lock_inv s \<longleftrightarrow>
     (\<forall>t<length (threads s). wpc (threads s ! t) \<noteq> Idle \<longrightarrow> mut (shared s) = Some t) \<and>
     (\<forall>t. mut (shared s) = Some t \<longrightarrow> t < length (threads s) \<and> wpc (threads s ! t) \<noteq> Idle) \<and>
     (\<forall>t<length (threads s). local_ok (wpc (threads s ! t)) (vec (shared s)))"

text \<open>
  The values a thread appends, in the order of its calls; \<open>pend\<close> are the values a
  thread has still to store, and \<open>pending\<close> lists them thread by thread (for the threads
  not yet created: all the values of their calls).
\<close>

fun pushes :: "call list \<Rightarrow> int list" where
  "pushes [] = []"
| "pushes (PushBack i # cs) = i # pushes cs"
| "pushes (c # cs) = pushes cs"

definition pend :: "worker \<Rightarrow> int list" where
  "pend w =
     (case wpc w of PushLocked i \<Rightarrow> [i] | PushStore i n \<Rightarrow> [i] | _ \<Rightarrow> []) @ pushes (todo w)"

definition pending :: "vector_process \<Rightarrow> int list list" where
  "pending s = map pend (threads s) @ map pushes (unspawned s)"

text \<open>
  \<open>interl xss r\<close>: the sequence \<open>r\<close> is an interleaving of the sequences \<open>xss\<close>, that is,
  \<open>r\<close> can be split into one subsequence per element of \<open>xss\<close>, equal to that element.
\<close>

fun interl :: "'a list list \<Rightarrow> 'a list \<Rightarrow> bool" where
  "interl xss [] = list_all (\<lambda>xs. xs = []) xss"
| "interl xss (x # r) =
     list_ex (\<lambda>t. case xss ! t of [] \<Rightarrow> False | y # ys \<Rightarrow> y = x \<and> interl (xss[t := ys]) r)
       [0..<length xss]"

definition push_inv :: "call list list \<Rightarrow> vector_process \<Rightarrow> bool" where
  "push_inv progs s \<longleftrightarrow>
     (\<forall>r. interl (pending s) r \<longrightarrow> interl (map pushes progs) (vec (shared s) @ r))"

text \<open>The invariant of the Vector program, for the thread functions \<open>progs\<close> of \<^verbatim>\<open>main\<close>.\<close>

definition vector_inv :: "call list list \<Rightarrow> vector_process \<Rightarrow> bool" where
  "vector_inv progs s \<longleftrightarrow>
     lock_inv s \<and> joined finished s \<and> (aborted s \<or> push_inv progs s)"

text \<open>
  What \<^verbatim>\<open>print\<close> writes for a vector \<open>v\<close> before the final \<^verbatim>\<open>std::endl\<close>: each
  element followed by \<^verbatim>\<open>", "\<close>.
\<close>

definition render :: "int list \<Rightarrow> string" where
  "render v = concat (map (\<lambda>i. show_int i @ '', '') v)"

text \<open>
  The states of a call of \<^verbatim>\<open>print\<close> by thread \<open>t\<close> that acquired the mutex when the
  output was \<open>c0\<close> and the vector \<open>v0\<close>, and that will continue with the calls \<open>cs\<close>;
  and the states after that call has returned.
\<close>

definition printing :: "tid \<Rightarrow> call list \<Rightarrow> string \<Rightarrow> int list \<Rightarrow> vector_process \<Rightarrow> bool" where
  "printing t cs c0 v0 s \<longleftrightarrow>
     t < length (threads s) \<and> todo (threads s ! t) = cs \<and> vec (shared s) = v0 \<and>
     (case wpc (threads s ! t) of
        PrintTest k \<Rightarrow> k \<le> length v0 \<and> cout (shared s) = c0 @ render (take k v0)
      | PrintEmit k i \<Rightarrow> k < length v0 \<and> i = v0 ! k \<and> cout (shared s) = c0 @ render (take k v0)
      | PrintEndl \<Rightarrow> cout (shared s) = c0 @ render v0
      | PrintUnlock \<Rightarrow> cout (shared s) = c0 @ render v0 @ endl
      | _ \<Rightarrow> False)"

definition printed :: "tid \<Rightarrow> call list \<Rightarrow> vector_process \<Rightarrow> bool" where
  "printed t cs s \<longleftrightarrow>
     t < length (threads s) \<and>
     (length (todo (threads s ! t)) < length cs \<or>
      todo (threads s ! t) = cs \<and> wpc (threads s ! t) = Idle)"

definition in_print :: "func_pc \<Rightarrow> bool" where
  "in_print pc =
     (case pc of
        PrintTest k \<Rightarrow> True
      | PrintEmit k i \<Rightarrow> True
      | PrintEndl \<Rightarrow> True
      | PrintUnlock \<Rightarrow> True
      | _ \<Rightarrow> False)"

text \<open>The exit status, once \<^verbatim>\<open>main\<close> has returned, is 0.\<close>

definition exit_ok :: "('sh, 'th, 'a) process \<Rightarrow> bool" where
  "exit_ok s \<longleftrightarrow> (case main_pc s of Exited r \<Rightarrow> r = 0 | _ \<Rightarrow> True)"

text \<open>
  The specification's words for the output of \<^verbatim>\<open>print\<close>, "elements joined by a
  separator": the separator stands between two consecutive elements.
\<close>

fun join :: "string \<Rightarrow> string list \<Rightarrow> string" where
  "join sep [] = []"
| "join sep [x] = x"
| "join sep (x # y # ys) = x @ sep @ join sep (y # ys)"

text \<open>
  Concrete executions: a small program of two threads, the first appending 1 and
  printing, the second appending 2 and sleeping; and the program of \<^verbatim>\<open>main\<close> with the
  three threads running one after the other.
\<close>

definition progs2 :: "call list list" where
  "progs2 = [[PushBack 1, Print], [PushBack 2, SleepFor]]"

definition run :: "actor list \<Rightarrow> (actor \<times> bool) list" where
  "run as = map (\<lambda>a. (a, True)) as"

definition sched2_pre :: "(actor \<times> bool) list" where
  "sched2_pre = run [Main, Main, Thread 0, Thread 0, Thread 0, Thread 0,
                     Thread 1, Thread 1, Thread 1, Thread 1]"

definition sched2_mid :: "(actor \<times> bool) list" where
  "sched2_mid = run [Thread 0, Thread 1, Thread 0, Main, Thread 0, Thread 0, Thread 0, Thread 0]"

definition sched2_post :: "(actor \<times> bool) list" where
  "sched2_post = run [Thread 0, Main, Main, Main]"

definition state2_pre :: vector_process where
  "state2_pre =
     \<lparr>shared = \<lparr>cout = [], mut = None, vec = [1, 2]\<rparr>,
      threads = [\<lparr>todo = [Print], wpc = Idle\<rparr>, \<lparr>todo = [SleepFor], wpc = Idle\<rparr>],
      main_pc = Spawning []\<rparr>"

definition state2_locked :: vector_process where
  "state2_locked =
     \<lparr>shared = \<lparr>cout = [], mut = Some 0, vec = [1, 2]\<rparr>,
      threads = [\<lparr>todo = [], wpc = PrintTest 0\<rparr>, \<lparr>todo = [SleepFor], wpc = Idle\<rparr>],
      main_pc = Spawning []\<rparr>"

definition state2_mid :: vector_process where
  "state2_mid =
     \<lparr>shared = \<lparr>cout = ''1, 2, '' @ endl, mut = Some 0, vec = [1, 2]\<rparr>,
      threads = [\<lparr>todo = [], wpc = PrintUnlock\<rparr>, \<lparr>todo = [], wpc = Idle\<rparr>],
      main_pc = Joining 0\<rparr>"

definition state2_final :: vector_process where
  "state2_final =
     \<lparr>shared = \<lparr>cout = ''1, 2, '' @ endl, mut = None, vec = [1, 2]\<rparr>,
      threads = [\<lparr>todo = [], wpc = Idle\<rparr>, \<lparr>todo = [], wpc = Idle\<rparr>],
      main_pc = Exited 0\<rparr>"

definition solo :: "tid \<Rightarrow> nat \<Rightarrow> (actor \<times> bool) list" where
  "solo t n = replicate n (Thread t, True)"

definition sched_serial :: "(actor \<times> bool) list" where
  "sched_serial =
     replicate 3 (Main, True) @ solo 0 75 @ solo 1 125 @ solo 2 175 @ replicate 5 (Main, True)"

definition state_serial :: vector_process where
  "state_serial =
     \<lparr>shared =
        \<lparr>cout = concat (map (\<lambda>n. render (take n [0, 1, 2, 3, 4, 0, 1, 2, 3, 4, 0, 1, 2, 3, 4]) @ endl)
                   [1..<16]),
         mut = None,
         vec = [0, 1, 2, 3, 4, 0, 1, 2, 3, 4, 0, 1, 2, 3, 4]\<rparr>,
      threads = [\<lparr>todo = [], wpc = Idle\<rparr>, \<lparr>todo = [], wpc = Idle\<rparr>, \<lparr>todo = [], wpc = Idle\<rparr>],
      main_pc = Exited 0\<rparr>"

definition state2_slept :: vector_process where
  "state2_slept =
     \<lparr>shared = \<lparr>cout = [], mut = Some 0, vec = [1, 2]\<rparr>,
      threads = [\<lparr>todo = [], wpc = PrintTest 0\<rparr>, \<lparr>todo = [], wpc = Idle\<rparr>],
      main_pc = Spawning []\<rparr>"

definition state2_unlocked :: vector_process where
  "state2_unlocked =
     \<lparr>shared = \<lparr>cout = ''1, 2, '' @ endl, mut = None, vec = [1, 2]\<rparr>,
      threads = [\<lparr>todo = [], wpc = Idle\<rparr>, \<lparr>todo = [], wpc = Idle\<rparr>],
      main_pc = Joining 0\<rparr>"

definition sched2_first :: "(actor \<times> bool) list" where
  "sched2_first = run [Main, Main, Thread 0, Thread 0, Thread 0, Thread 0]"

definition sched2_second :: "(actor \<times> bool) list" where
  "sched2_second = run [Thread 1, Thread 1, Thread 1, Thread 1]"

definition state2_first :: vector_process where
  "state2_first =
     \<lparr>shared = \<lparr>cout = [], mut = None, vec = [1]\<rparr>,
      threads = [\<lparr>todo = [Print], wpc = Idle\<rparr>, \<lparr>todo = [PushBack 2, SleepFor], wpc = Idle\<rparr>],
      main_pc = Spawning []\<rparr>"

section \<open>unscrambled.cpp: the output of concurrent calls of printString\<close>

lemma sink_invI:
  assumes "map msg (threads s) @ unspawned s = msgs" "distinct fin"
    "set fin = {t. t < length (threads s) \<and> ppc (threads s ! t) = Returned}"
    "\<And>t k. t < length (threads s) \<Longrightarrow> ppc (threads s ! t) = InLoop k \<Longrightarrow> coutMutex (shared s) = Some t"
    "\<And>t. coutMutex (shared s) = Some t \<Longrightarrow> t < length (threads s) \<and> (\<exists>k. ppc (threads s ! t) = InLoop k)"
    "cout (shared s) = concat (map ((!) msgs) fin) @ in_progress s @ final_endl s"
    "joined (\<lambda>p. ppc p = Returned) s"
  shows "sink_inv msgs s fin"
  unfolding sink_inv_def using assms by blast

lemma sink_invD:
  assumes "sink_inv msgs s fin"
  shows "map msg (threads s) @ unspawned s = msgs" "distinct fin"
    "set fin = {t. t < length (threads s) \<and> ppc (threads s ! t) = Returned}"
    "\<And>t k. t < length (threads s) \<Longrightarrow> ppc (threads s ! t) = InLoop k \<Longrightarrow> coutMutex (shared s) = Some t"
    "\<And>t. coutMutex (shared s) = Some t \<Longrightarrow> t < length (threads s) \<and> (\<exists>k. ppc (threads s ! t) = InLoop k)"
    "cout (shared s) = concat (map ((!) msgs) fin) @ in_progress s @ final_endl s"
    "joined (\<lambda>p. ppc p = Returned) s"
  using assms unfolding sink_inv_def by blast+

lemma sink_inv_init: "sink_inv msgs (sink_init msgs) []"
  by (simp add: sink_inv_def sink_init_def unspawned_def in_progress_def final_endl_def joined_def)

lemma inv_msg:
  assumes "sink_inv msgs s fin" "t < length (threads s)"
  shows "msg (threads s ! t) = msgs ! t"
proof -
  from assms(1) have "map msg (threads s) @ unspawned s = msgs" by (simp add: sink_inv_def)
  then have "msgs ! t = (map msg (threads s) @ unspawned s) ! t" by simp
  with assms(2) show ?thesis by (simp add: nth_append)
qed

lemma map_msg_update: "map msg (ths[t := (ths ! t)\<lparr>ppc := x\<rparr>]) = map msg ths"
proof (rule nth_equalityI)
  show "map msg (ths[t := (ths ! t)\<lparr>ppc := x\<rparr>]) ! i = map msg ths ! i"
    if "i < length (map msg (ths[t := (ths ! t)\<lparr>ppc := x\<rparr>]))" for i
    using that by (cases "i = t") simp_all
qed simp

lemma returned_update_other:
  assumes "ppc p \<noteq> Returned" "ppc (ths ! t) \<noteq> Returned"
  shows "{u. u < length ths \<and> ppc (ths[t := p] ! u) = Returned} =
         {u. u < length ths \<and> ppc (ths ! u) = Returned}"
proof -
  have "ppc (ths[t := p] ! u) = Returned \<longleftrightarrow> ppc (ths ! u) = Returned" if "u < length ths" for u
    using that assms by (cases "u = t") simp_all
  then show ?thesis by auto
qed

lemma returned_update_this:
  assumes "t < length ths" "ppc p = Returned"
  shows "{u. u < length ths \<and> ppc (ths[t := p] ! u) = Returned} =
         insert t {u. u < length ths \<and> ppc (ths ! u) = Returned}"
proof -
  have "ppc (ths[t := p] ! u) = Returned \<longleftrightarrow> u = t \<or> ppc (ths ! u) = Returned" if "u < length ths" for u
    using that assms by (cases "u = t") simp_all
  with assms(1) show ?thesis by auto
qed

lemma sink_inv_spawn:
  assumes inv: "sink_inv msgs s fin" and pc: "main_pc s = Spawning (m # ms)"
    and s': "s' = s\<lparr>threads := threads s @ [\<lparr>msg = m, ppc = Entry\<rparr>], main_pc := Spawning ms\<rparr>"
  shows "sink_inv msgs s' fin"
proof (rule sink_invI)
  note D = sink_invD[OF inv]
  show "map msg (threads s') @ unspawned s' = msgs"
    using D(1) pc by (simp add: s' unspawned_def)
  show "distinct fin" by (rule D(2))
  show "set fin = {t. t < length (threads s') \<and> ppc (threads s' ! t) = Returned}"
    unfolding D(3) s' by (auto simp: nth_append less_Suc_eq)
  show "coutMutex (shared s') = Some t" if "t < length (threads s')" "ppc (threads s' ! t) = InLoop k" for t k
  proof (cases "t < length (threads s)")
    case True
    with that D(4)[of t k] show ?thesis by (simp add: s' nth_append)
  next
    case False
    with that show ?thesis by (simp add: s' nth_append)
  qed
  show "t < length (threads s') \<and> (\<exists>k. ppc (threads s' ! t) = InLoop k)" if "coutMutex (shared s') = Some t" for t
    using D(5)[of t] that by (auto simp: s' nth_append)
  have "in_progress s' = in_progress s"
    using D(5) by (auto simp: in_progress_def s' nth_append split: option.splits)
  moreover have "final_endl s' = final_endl s" using pc by (simp add: final_endl_def s')
  ultimately show "cout (shared s') = concat (map ((!) msgs) fin) @ in_progress s' @ final_endl s'"
    using D(6) by (simp add: s')
  show "joined (\<lambda>p. ppc p = Returned) s'" by (simp add: joined_def s')
qed

lemma sink_inv_main_pc:
  assumes inv: "sink_inv msgs s fin" and s': "s' = s\<lparr>main_pc := pc'\<rparr>"
    and u: "unspawned s' = unspawned s" and e: "final_endl s' = final_endl s"
    and j: "joined (\<lambda>p. ppc p = Returned) s'"
  shows "sink_inv msgs s' fin"
proof (rule sink_invI)
  note D = sink_invD[OF inv]
  have th: "threads s' = threads s" and sh: "shared s' = shared s" by (simp_all add: s')
  show "map msg (threads s') @ unspawned s' = msgs" unfolding th u by (rule D(1))
  show "distinct fin" by (rule D(2))
  show "set fin = {t. t < length (threads s') \<and> ppc (threads s' ! t) = Returned}"
    unfolding th by (rule D(3))
  show "coutMutex (shared s') = Some t" if "t < length (threads s')" "ppc (threads s' ! t) = InLoop k" for t k
    using that D(4)[of t k] unfolding th sh by simp
  show "t < length (threads s') \<and> (\<exists>k. ppc (threads s' ! t) = InLoop k)" if "coutMutex (shared s') = Some t" for t
    using that D(5)[of t] unfolding th sh by simp
  have "in_progress s' = in_progress s"
    unfolding in_progress_def th sh ..
  then show "cout (shared s') = concat (map ((!) msgs) fin) @ in_progress s' @ final_endl s'"
    unfolding e sh using D(6) by simp
  show "joined (\<lambda>p. ppc p = Returned) s'" by (rule j)
qed

lemma not_returned_no_endl:
  assumes "joined (\<lambda>p. ppc p = Returned) s" "t < length (threads s)" "ppc (threads s ! t) \<noteq> Returned"
  shows "final_endl s = []" "main_pc s \<noteq> Endl"
  using assms by (auto simp: joined_def final_endl_def split: main_pc.splits)

lemma sink_inv_endl:
  assumes inv: "sink_inv msgs s fin" and pc: "main_pc s = Endl"
    and s': "s' = s\<lparr>shared := (shared s)\<lparr>cout := cout (shared s) @ endl\<rparr>, main_pc := Exited 0\<rparr>"
  shows "sink_inv msgs s' fin"
proof (rule sink_invI)
  note D = sink_invD[OF inv]
  have th: "threads s' = threads s" and mu: "coutMutex (shared s') = coutMutex (shared s)"
    and co: "cout (shared s') = cout (shared s) @ endl"
    by (simp_all add: s')
  have free: "coutMutex (shared s) = None"
  proof (cases "coutMutex (shared s)")
    case (Some t)
    with D(5)[of t] not_returned_no_endl(2)[OF D(7), of t] pc show ?thesis by auto
  qed simp
  show "map msg (threads s') @ unspawned s' = msgs"
    using D(1) pc by (simp add: unspawned_def s')
  show "distinct fin" by (rule D(2))
  show "set fin = {t. t < length (threads s') \<and> ppc (threads s' ! t) = Returned}"
    unfolding th by (rule D(3))
  show "coutMutex (shared s') = Some t" if "t < length (threads s')" "ppc (threads s' ! t) = InLoop k" for t k
    using that D(4)[of t k] unfolding th mu by simp
  show "t < length (threads s') \<and> (\<exists>k. ppc (threads s' ! t) = InLoop k)" if "coutMutex (shared s') = Some t" for t
    using that free unfolding mu by simp
  have "in_progress s' = []" "in_progress s = []"
    unfolding in_progress_def mu free by simp_all
  moreover have "final_endl s' = endl" "final_endl s = []" using pc by (simp_all add: final_endl_def s')
  ultimately show "cout (shared s') = concat (map ((!) msgs) fin) @ in_progress s' @ final_endl s'"
    unfolding co using D(6) by simp
  show "joined (\<lambda>p. ppc p = Returned) s'" using D(7) pc by (simp add: joined_def s')
qed

lemma sink_inv_main:
  assumes inv: "sink_inv msgs s fin" and st: "sink_main s = Some s'"
  shows "sink_inv msgs s' fin"
proof (cases "main_pc s")
  case (Spawning ms)
  show ?thesis
  proof (cases ms)
    case Nil
    with Spawning st have s': "s' = s\<lparr>main_pc := Joining 0\<rparr>" by (auto simp: sink_main_def)
    show ?thesis
      using Spawning Nil by (intro sink_inv_main_pc[OF inv s']) (simp_all add: unspawned_def final_endl_def joined_def s')
  next
    case (Cons m ms')
    with Spawning st show ?thesis
      by (intro sink_inv_spawn[OF inv]) (auto simp: sink_main_def)
  qed
next
  case (Joining k)
  note J = sink_invD(7)[OF inv]
  from J Joining have kle: "k \<le> length (threads s)" and jk: "\<And>j. j < k \<Longrightarrow> ppc (threads s ! j) = Returned"
    by (simp_all add: joined_def)
  show ?thesis
  proof (cases "k < length (threads s)")
    case True
    with Joining st have r: "ppc (threads s ! k) = Returned" and s': "s' = s\<lparr>main_pc := Joining (Suc k)\<rparr>"
      by (auto simp: sink_main_def split: if_splits)
    have "ppc (threads s ! j) = Returned" if "j < Suc k" for j
      using that r jk[of j] by (cases "j = k") simp_all
    then have "joined (\<lambda>p. ppc p = Returned) s'"
      using True by (simp add: joined_def s')
    then show ?thesis
      using Joining by (intro sink_inv_main_pc[OF inv s']) (simp_all add: unspawned_def final_endl_def s')
  next
    case False
    with Joining st have s': "s' = s\<lparr>main_pc := Endl\<rparr>" by (auto simp: sink_main_def)
    have "ppc (threads s ! j) = Returned" if "j < length (threads s)" for j
      using that False kle jk[of j] by simp
    then have "joined (\<lambda>p. ppc p = Returned) s'"
      by (simp add: joined_def s')
    then show ?thesis
      using Joining by (intro sink_inv_main_pc[OF inv s']) (simp_all add: unspawned_def final_endl_def s')
  qed
next
  case Endl
  with st show ?thesis by (intro sink_inv_endl[OF inv]) (auto simp: sink_main_def)
next
  case (Exited r)
  with st show ?thesis by (simp add: sink_main_def)
qed

lemma joined_update:
  assumes "joined P s" "P (threads s ! t) \<Longrightarrow> P p" "main_pc s' = main_pc s" "threads s' = (threads s)[t := p]"
  shows "joined P s'"
proof -
  have "P (threads s' ! j)" if "j < length (threads s)" "P (threads s ! j)" for j
    using that assms(2,4) by (cases "j = t") simp_all
  with assms(1,3,4) show ?thesis
    by (cases "main_pc s") (simp_all add: joined_def)
qed

lemma sink_inv_lock:
  assumes inv: "sink_inv msgs s fin" and t: "t < length (threads s)"
    and pc: "ppc (threads s ! t) = Entry" and free: "coutMutex (shared s) = None"
    and s': "s' = s\<lparr>shared := (shared s)\<lparr>coutMutex := Some t\<rparr>,
                      threads := (threads s)[t := (threads s ! t)\<lparr>ppc := InLoop 0\<rparr>]\<rparr>"
  shows "sink_inv msgs s' fin"
proof (rule sink_invI)
  note D = sink_invD[OF inv]
  have nth: "ppc (threads s' ! u) = (if u = t then InLoop 0 else ppc (threads s ! u))" if "u < length (threads s)" for u
    using that by (cases "u = t") (simp_all add: s')
  have len: "length (threads s') = length (threads s)" by (simp add: s')
  show "map msg (threads s') @ unspawned s' = msgs"
    using D(1) by (simp add: s' unspawned_def map_msg_update)
  show "distinct fin" by (rule D(2))
  show "set fin = {t. t < length (threads s') \<and> ppc (threads s' ! t) = Returned}"
    unfolding D(3) using pc by (simp add: s' returned_update_other)
  show "coutMutex (shared s') = Some u" if "u < length (threads s')" "ppc (threads s' ! u) = InLoop k" for u k
  proof (cases "u = t")
    case True then show ?thesis by (simp add: s')
  next
    case False
    with that nth[of u] len D(4)[of u k] free show ?thesis by simp
  qed
  show "u < length (threads s') \<and> (\<exists>k. ppc (threads s' ! u) = InLoop k)" if "coutMutex (shared s') = Some u" for u
    using that t nth[of t] by (simp add: s')
  have "in_progress s' = []" using t by (simp add: in_progress_def s')
  moreover have "in_progress s = []" using free by (simp add: in_progress_def)
  moreover have "final_endl s' = final_endl s" by (simp add: final_endl_def s')
  ultimately show "cout (shared s') = concat (map ((!) msgs) fin) @ in_progress s' @ final_endl s'"
    using D(6) by (simp add: s')
  show "joined (\<lambda>p. ppc p = Returned) s'"
    using pc by (intro joined_update[OF D(7), of t]) (simp_all add: s')
qed

lemma sink_inv_emit:
  assumes inv: "sink_inv msgs s fin" and t: "t < length (threads s)"
    and pc: "ppc (threads s ! t) = InLoop k" and k: "k < length (msg (threads s ! t))"
    and s': "s' = s\<lparr>shared := (shared s)\<lparr>cout := cout (shared s) @ [msg (threads s ! t) ! k]\<rparr>,
                      threads := (threads s)[t := (threads s ! t)\<lparr>ppc := InLoop (Suc k)\<rparr>]\<rparr>"
  shows "sink_inv msgs s' fin"
proof (rule sink_invI)
  note D = sink_invD[OF inv]
  have own: "coutMutex (shared s) = Some t" using D(4)[OF t pc] .
  have nth: "ppc (threads s' ! u) = (if u = t then InLoop (Suc k) else ppc (threads s ! u))" if "u < length (threads s)" for u
    using that by (cases "u = t") (simp_all add: s')
  have len: "length (threads s') = length (threads s)" by (simp add: s')
  have m: "msg (threads s ! t) = msgs ! t" using inv_msg[OF inv t] .
  show "map msg (threads s') @ unspawned s' = msgs"
    using D(1) by (simp add: s' unspawned_def map_msg_update)
  show "distinct fin" by (rule D(2))
  show "set fin = {t. t < length (threads s') \<and> ppc (threads s' ! t) = Returned}"
    unfolding D(3) using pc by (simp add: s' returned_update_other)
  show "coutMutex (shared s') = Some u" if "u < length (threads s')" "ppc (threads s' ! u) = InLoop j" for u j
  proof (cases "u = t")
    case True then show ?thesis using own by (simp add: s')
  next
    case False
    with that nth[of u] len D(4)[of u j] show ?thesis by (simp add: s')
  qed
  show "u < length (threads s') \<and> (\<exists>k. ppc (threads s' ! u) = InLoop k)" if "coutMutex (shared s') = Some u" for u
    using that t nth[of t] own by (simp add: s')
  have "in_progress s' = take (Suc k) (msg (threads s ! t))" using t own by (simp add: in_progress_def s')
  moreover have "in_progress s = take k (msg (threads s ! t))" using own pc by (simp add: in_progress_def)
  moreover have "final_endl s = []" using not_returned_no_endl(1)[OF D(7) t] pc by simp
  moreover have "final_endl s' = final_endl s" by (simp add: final_endl_def s')
  ultimately show "cout (shared s') = concat (map ((!) msgs) fin) @ in_progress s' @ final_endl s'"
    using D(6) k m by (simp add: s' take_Suc_conv_app_nth)
  show "joined (\<lambda>p. ppc p = Returned) s'"
    using pc by (intro joined_update[OF D(7), of t]) (simp_all add: s')
qed

lemma sink_inv_unlock:
  assumes inv: "sink_inv msgs s fin" and t: "t < length (threads s)"
    and pc: "ppc (threads s ! t) = InLoop k" and k: "\<not> k < length (msg (threads s ! t))"
    and s': "s' = s\<lparr>shared := (shared s)\<lparr>coutMutex := None\<rparr>,
                      threads := (threads s)[t := (threads s ! t)\<lparr>ppc := Returned\<rparr>]\<rparr>"
  shows "sink_inv msgs s' (fin @ [t])"
proof (rule sink_invI)
  note D = sink_invD[OF inv]
  have own: "coutMutex (shared s) = Some t" using D(4)[OF t pc] .
  have nth: "ppc (threads s' ! u) = (if u = t then Returned else ppc (threads s ! u))" if "u < length (threads s)" for u
    using that by (cases "u = t") (simp_all add: s')
  have len: "length (threads s') = length (threads s)" by (simp add: s')
  have m: "msg (threads s ! t) = msgs ! t" using inv_msg[OF inv t] .
  show "map msg (threads s') @ unspawned s' = msgs"
    using D(1) by (simp add: s' unspawned_def map_msg_update)
  show "distinct (fin @ [t])" using D(2) D(3) pc by simp
  show "set (fin @ [t]) = {t. t < length (threads s') \<and> ppc (threads s' ! t) = Returned}"
    using D(3) t by (simp add: s' returned_update_this)
  show "coutMutex (shared s') = Some u" if "u < length (threads s')" "ppc (threads s' ! u) = InLoop j" for u j
  proof (cases "u = t")
    case True with that nth[of t] t show ?thesis by simp
  next
    case False
    with that nth[of u] len D(4)[of u j] own show ?thesis by simp
  qed
  show "u < length (threads s') \<and> (\<exists>k. ppc (threads s' ! u) = InLoop k)" if "coutMutex (shared s') = Some u" for u
    using that by (simp add: s')
  have "in_progress s' = []" by (simp add: in_progress_def s')
  moreover have "in_progress s = msgs ! t" using own pc k m[symmetric] by (simp add: in_progress_def)
  moreover have "final_endl s' = final_endl s" by (simp add: final_endl_def s')
  ultimately show "cout (shared s') = concat (map ((!) msgs) (fin @ [t])) @ in_progress s' @ final_endl s'"
    using D(6) by (simp add: s')
  show "joined (\<lambda>p. ppc p = Returned) s'"
    by (intro joined_update[OF D(7), of t]) (simp_all add: s')
qed

lemma sink_inv_step:
  assumes inv: "sink_inv msgs s fin" and st: "sink_step unscrambled_printString a s = Some s'"
  shows "\<exists>fin'. sink_inv msgs s' fin'"
proof (cases a)
  case Main
  with st sink_inv_main[OF inv] show ?thesis by (auto simp: sink_step_def)
next
  case (Thread t)
  with st have t: "t < length (threads s)" by (simp add: sink_step_def split: if_splits)
  obtain p sh where ps: "unscrambled_printString t (threads s ! t) (shared s) = Some (p, sh)"
    and s': "s' = s\<lparr>shared := sh, threads := (threads s)[t := p]\<rparr>"
    using st Thread t by (auto simp: sink_step_def split: option.splits)
  show ?thesis
  proof (cases "ppc (threads s ! t)")
    case Entry
    with ps have "coutMutex (shared s) = None" "p = (threads s ! t)\<lparr>ppc := InLoop 0\<rparr>" "sh = (shared s)\<lparr>coutMutex := Some t\<rparr>"
      by (auto simp: unscrambled_printString_def mutex_lock_def split: option.splits)
    with sink_inv_lock[OF inv t Entry] s' show ?thesis by blast
  next
    case (InLoop k)
    show ?thesis
    proof (cases "k < length (msg (threads s ! t))")
      case True
      with ps InLoop have "p = (threads s ! t)\<lparr>ppc := InLoop (Suc k)\<rparr>"
          "sh = (shared s)\<lparr>cout := cout (shared s) @ [msg (threads s ! t) ! k]\<rparr>"
        by (auto simp: unscrambled_printString_def emit_char_def)
      with sink_inv_emit[OF inv t InLoop True] s' show ?thesis by blast
    next
      case False
      with ps InLoop have "p = (threads s ! t)\<lparr>ppc := Returned\<rparr>" "sh = (shared s)\<lparr>coutMutex := None\<rparr>"
        by (auto simp: unscrambled_printString_def mutex_unlock_def split: option.splits if_splits)
      with sink_inv_unlock[OF inv t InLoop False] s' show ?thesis by blast
    qed
  next
    case Returned
    with ps show ?thesis by (simp add: unscrambled_printString_def)
  qed
qed

lemma sink_inv_exec:
  assumes "exec (sink_step unscrambled_printString) sched s = Some s'" "sink_inv msgs s fin"
  shows "\<exists>fin'. sink_inv msgs s' fin'"
  using assms
proof (induction sched arbitrary: s fin)
  case Nil
  then show ?case by auto
next
  case (Cons a sched)
  then obtain s1 where 1: "sink_step unscrambled_printString a s = Some s1"
    and 2: "exec (sink_step unscrambled_printString) sched s1 = Some s'"
    by (auto split: option.splits)
  from sink_inv_step[OF Cons.prems(2) 1] obtain fin1 where "sink_inv msgs s1 fin1" ..
  from Cons.IH[OF 2 this] show ?case .
qed

lemma sink_serial:
  assumes ex: "exec (sink_step unscrambled_printString) sched (sink_init msgs) = Some s"
  shows "\<exists>order. distinct order \<and>
           set order = {t. t < length (threads s) \<and> ppc (threads s ! t) = Returned} \<and>
           cout (shared s) = concat (map (\<lambda>t. msg (threads s ! t)) order) @ in_progress s @ final_endl s \<and>
           (\<forall>t<length (threads s). \<forall>k. ppc (threads s ! t) = InLoop k \<longrightarrow> coutMutex (shared s) = Some t) \<and>
           (\<forall>t<length (threads s). msg (threads s ! t) = msgs ! t) \<and>
           (\<forall>r. main_pc s = Exited r \<longrightarrow>
              set order = {..<length msgs} \<and> map msg (threads s) = msgs \<and>
              cout (shared s) = concat (map (\<lambda>t. msgs ! t) order) @ endl)"
proof -
  from sink_inv_exec[OF ex sink_inv_init] obtain fin where inv: "sink_inv msgs s fin" ..
  note D = sink_invD[OF inv]
  have m: "map (\<lambda>t. msg (threads s ! t)) fin = map ((!) msgs) fin"
    using D(3) inv_msg[OF inv] by (intro map_cong) auto
  have fin: "set fin = {..<length msgs} \<and> map msg (threads s) = msgs \<and>
      cout (shared s) = concat (map (\<lambda>t. msgs ! t) fin) @ endl" if pc: "main_pc s = Exited r" for r
  proof -
    from D(7) pc have all: "\<And>j. j < length (threads s) \<Longrightarrow> ppc (threads s ! j) = Returned"
      by (simp add: joined_def)
    from D(1) pc have ms: "map msg (threads s) = msgs" by (simp add: unspawned_def)
    then have len: "length (threads s) = length msgs" by (metis length_map)
    have "coutMutex (shared s) = None"
    proof (cases "coutMutex (shared s)")
      case (Some t)
      with D(5)[of t] all[of t] show ?thesis by auto
    qed simp
    then have "in_progress s = []" by (simp add: in_progress_def)
    moreover have "final_endl s = endl" using pc by (simp add: final_endl_def)
    moreover have "set fin = {..<length msgs}" using D(3) all len by auto
    ultimately show ?thesis using D(6) ms by simp
  qed
  show ?thesis
    using D(2,3,4,6) m fin inv_msg[OF inv] by (intro exI[of _ fin]) (simp add: m)
qed

text \<open>
  \<^verbatim>\<open>coutMutex.unlock()\<close> is never undefined: a thread that reaches it owns the mutex.
\<close>

lemma sink_unlock_defined:
  assumes "exec (sink_step unscrambled_printString) sched (sink_init msgs) = Some s"
    "t < length (threads s)" "ppc (threads s ! t) = InLoop k"
  shows "mutex_unlock t (coutMutex (shared s)) = Some None"
proof -
  from sink_inv_exec[OF assms(1) sink_inv_init] obtain fin where "sink_inv msgs s fin" ..
  from sink_invD(4)[OF this assms(2,3)] show ?thesis by (simp add: mutex_unlock_def)
qed

lemma run_123: "unscrambled sched_123 = Some final_123"
  by (simp add: final_123_def unscrambled_def sched_123_def sink_init_def messages_def sink_step_def sink_main_def
      unscrambled_printString_def mutex_lock_def mutex_unlock_def emit_char_def)

text \<open>
  scrambled.cpp is the same program without the mutex: there the characters of the
  three calls can alternate.
\<close>

lemma scrambled_interleaves: "scrambled sched_mixed = Some final_mixed"
  by (simp add: final_mixed_def scrambled_def sched_mixed_def sink_init_def messages_def sink_step_def
      sink_main_def scrambled_printString_def scrambled_loop_def emit_char_def)

lemma distinct3:
  assumes "distinct (order :: nat list)" "set order = {..<3}"
  shows "order \<in> {[0,1,2],[0,2,1],[1,0,2],[1,2,0],[2,0,1],[2,1,0]}"
proof -
  have "length order = 3" using assms distinct_card[of order] by simp
  then obtain a b c where o: "order = [a, b, c]"
    by (auto simp: length_Suc_conv numeral_3_eq_3)
  have "a \<in> set order" "b \<in> set order" "c \<in> set order" by (simp_all add: o)
  then have "a < 3" "b < 3" "c < 3" unfolding assms(2) by simp_all
  then have abc: "a = 0 \<or> a = 1 \<or> a = 2" "b = 0 \<or> b = 1 \<or> b = 2" "c = 0 \<or> c = 1 \<or> c = 2"
    by arith+
  have ne: "a \<noteq> b" "a \<noteq> c" "b \<noteq> c" using assms(1) by (simp_all add: o)
  show ?thesis
    unfolding o using abc ne by (elim disjE) simp_all
qed

text \<open>
  The scenario of unscrambled.cpp: when \<^verbatim>\<open>main\<close> has returned, the output is one of
  the six orders of the three messages, each message unbroken, and the final newline.
\<close>

lemma unscrambled_outputs:
  assumes "unscrambled sched = Some s" "main_pc s = Exited r"
  shows "cout (shared s) \<in> {''ABC123xyz'' @ endl, ''ABCxyz123'' @ endl, ''123ABCxyz'' @ endl,
                            ''123xyzABC'' @ endl, ''xyzABC123'' @ endl, ''xyz123ABC'' @ endl}"
proof -
  from sink_serial[OF assms(1)[unfolded unscrambled_def]] assms(2)
  obtain order where o: "distinct order" "set order = {..<length messages}"
    "cout (shared s) = concat (map (\<lambda>t. messages ! t) order) @ endl"
    by blast
  from o(2) have "set order = {..<3}" by (simp add: messages_def)
  from distinct3[OF o(1) this] show ?thesis
    unfolding o(3) by (auto simp: messages_def)
qed

text \<open>
  C1. In unscrambled.cpp, where \<^verbatim>\<open>printString\<close> holds \<open>coutMutex\<close> around its loop, the
  characters of concurrent calls never interleave. For every list of messages and every
  schedule, at every moment of the execution the output is the whole texts of the calls
  that have returned, one after the other in some order (\<open>order\<close> lists these calls, each
  once), followed by the characters written so far by the one call that owns the mutex;
  and when \<^verbatim>\<open>main\<close> has returned, it is the texts of all the calls, each unbroken, in
  some order, followed by the newline of \<^verbatim>\<open>main\<close>.
\<close>

theorem printString_never_interleaves:
  assumes "exec (sink_step unscrambled_printString) sched (sink_init msgs) = Some s"
  shows "\<exists>order. distinct order \<and>
           set order = {t. t < length (threads s) \<and> ppc (threads s ! t) = Returned} \<and>
           cout (shared s) =
             concat (map (\<lambda>t. msg (threads s ! t)) order) @ in_progress s @ final_endl s \<and>
           (\<forall>r. main_pc s = Exited r \<longrightarrow>
              set order = {..<length msgs} \<and>
              cout (shared s) = concat (map (\<lambda>t. msgs ! t) order) @ endl)"
proof -
  from sink_serial[OF assms] obtain order where o: "distinct order"
    "set order = {t. t < length (threads s) \<and> ppc (threads s ! t) = Returned}"
    "cout (shared s) = concat (map (\<lambda>t. msg (threads s ! t)) order) @ in_progress s @ final_endl s"
    and e: "\<And>r. main_pc s = Exited r \<Longrightarrow>
      set order = {..<length msgs} \<and> cout (shared s) = concat (map (\<lambda>t. msgs ! t) order) @ endl"
    by blast
  show ?thesis
  proof (intro exI[of _ order] conjI allI impI)
    show "distinct order" by (rule o(1))
    show "set order = {t. t < length (threads s) \<and> ppc (threads s ! t) = Returned}" by (rule o(2))
    show "cout (shared s) = concat (map (\<lambda>t. msg (threads s ! t)) order) @ in_progress s @ final_endl s"
      by (rule o(3))
    show "set order = {..<length msgs}" if "main_pc s = Exited r" for r using e[OF that] ..
    show "cout (shared s) = concat (map (\<lambda>t. msgs ! t) order) @ endl" if "main_pc s = Exited r" for r
      using e[OF that] ..
  qed
qed

theorem printString_never_interleaves_witness:
  "exec (sink_step unscrambled_printString) sched_123 (sink_init messages) = Some final_123 \<and>
   (\<exists>order. distinct order \<and>
      set order = {t. t < length (threads final_123) \<and> ppc (threads final_123 ! t) = Returned} \<and>
      cout (shared final_123) =
        concat (map (\<lambda>t. msg (threads final_123 ! t)) order) @ in_progress final_123 @
        final_endl final_123 \<and>
      (\<forall>r. main_pc final_123 = Exited r \<longrightarrow>
         set order = {..<length messages} \<and>
         cout (shared final_123) = concat (map (\<lambda>t. messages ! t) order) @ endl))"
proof -
  have run: "exec (sink_step unscrambled_printString) sched_123 (sink_init messages) = Some final_123"
    using run_123 by (simp add: unscrambled_def)
  from printString_never_interleaves[OF run] run show ?thesis by blast
qed

section \<open>Vector: the mutex invariant\<close>

lemma lock_invI:
  assumes "\<And>t. t < length (threads s) \<Longrightarrow> wpc (threads s ! t) \<noteq> Idle \<Longrightarrow> mut (shared s) = Some t"
    "\<And>t. mut (shared s) = Some t \<Longrightarrow> t < length (threads s) \<and> wpc (threads s ! t) \<noteq> Idle"
    "\<And>t. t < length (threads s) \<Longrightarrow> local_ok (wpc (threads s ! t)) (vec (shared s))"
  shows "lock_inv s"
  unfolding lock_inv_def using assms by blast

lemma lock_invD:
  assumes "lock_inv s"
  shows "\<And>t. t < length (threads s) \<Longrightarrow> wpc (threads s ! t) \<noteq> Idle \<Longrightarrow> mut (shared s) = Some t"
    "\<And>t. mut (shared s) = Some t \<Longrightarrow> t < length (threads s) \<and> wpc (threads s ! t) \<noteq> Idle"
    "\<And>t. t < length (threads s) \<Longrightarrow> local_ok (wpc (threads s ! t)) (vec (shared s))"
  using assms unfolding lock_inv_def by blast+

lemma local_ok_Idle: "local_ok Idle v"
  by (simp add: local_ok_def)

lemma lock_inv_init: "lock_inv (vector_init progs)"
  by (simp add: lock_inv_def vector_init_def)

text \<open>While one thread is inside a member function, every other thread is between calls.\<close>

lemma others_idle:
  assumes "lock_inv s" "t < length (threads s)" "wpc (threads s ! t) \<noteq> Idle"
    "u < length (threads s)" "u \<noteq> t"
  shows "wpc (threads s ! u) = Idle"
proof (rule ccontr)
  assume "wpc (threads s ! u) \<noteq> Idle"
  with lock_invD(1)[OF assms(1)] assms(2-4) have "mut (shared s) = Some u" "mut (shared s) = Some t"
    by blast+
  with assms(5) show False by simp
qed

lemma free_all_idle:
  assumes "lock_inv s" "mut (shared s) = None" "u < length (threads s)"
  shows "wpc (threads s ! u) = Idle"
  using lock_invD(1)[OF assms(1) assms(3)] assms(2) by auto

text \<open>The steps of \<^verbatim>\<open>main\<close>, one case per statement.\<close>

lemma vector_main_cases:
  assumes "vector_main s = Some s'"
  obtains (spawn) p ps where "main_pc s = Spawning (p # ps)"
      "s' = s\<lparr>threads := threads s @ [\<lparr>todo = p, wpc = Idle\<rparr>], main_pc := Spawning ps\<rparr>"
    | (join0) "main_pc s = Spawning []" "s' = s\<lparr>main_pc := Joining 0\<rparr>"
    | (join) k where "main_pc s = Joining k" "k < length (threads s)" "finished (threads s ! k)"
      "s' = s\<lparr>main_pc := Joining (Suc k)\<rparr>"
    | (exit) k where "main_pc s = Joining k" "\<not> k < length (threads s)" "s' = s\<lparr>main_pc := Exited 0\<rparr>"
proof (cases "main_pc s")
  case (Spawning ps)
  show ?thesis
  proof (cases ps)
    case Nil
    with Spawning assms have "s' = s\<lparr>main_pc := Joining 0\<rparr>" by (simp add: vector_main_def)
    with Spawning Nil join0 show ?thesis by simp
  next
    case (Cons p ps')
    with Spawning assms have "s' = s\<lparr>threads := threads s @ [\<lparr>todo = p, wpc = Idle\<rparr>], main_pc := Spawning ps'\<rparr>"
      by (simp add: vector_main_def)
    with Spawning Cons spawn show ?thesis by simp
  qed
next
  case (Joining k)
  show ?thesis
  proof (cases "k < length (threads s)")
    case True
    with Joining assms have "finished (threads s ! k)" "s' = s\<lparr>main_pc := Joining (Suc k)\<rparr>"
      by (simp_all add: vector_main_def split: if_splits)
    with Joining True join show ?thesis by simp
  next
    case False
    with Joining assms have "s' = s\<lparr>main_pc := Exited 0\<rparr>" by (simp add: vector_main_def)
    with Joining False exit show ?thesis by simp
  qed
next
  case Endl
  with assms show ?thesis by (simp add: vector_main_def)
next
  case (Exited r)
  with assms show ?thesis by (simp add: vector_main_def)
qed

lemma lock_inv_frame:
  assumes "lock_inv s" "threads s' = threads s" "shared s' = shared s"
  shows "lock_inv s'"
  using assms(1) unfolding lock_inv_def assms(2,3) .

lemma lock_inv_main:
  assumes inv: "lock_inv s" and st: "vector_main s = Some s'"
  shows "lock_inv s'"
  using st
proof (cases rule: vector_main_cases)
  case (spawn p ps)
  note D = lock_invD[OF inv]
  have nth: "wpc (threads s' ! u) = wpc (threads s ! u)" if "u < length (threads s)" for u
    using that by (simp add: spawn(2) nth_append)
  have new: "wpc (threads s' ! length (threads s)) = Idle"
    by (simp add: spawn(2))
  have sh: "shared s' = shared s" and len: "length (threads s') = Suc (length (threads s))"
    by (simp_all add: spawn(2))
  have old: "u < length (threads s)" if "u < length (threads s')" "wpc (threads s' ! u) \<noteq> Idle" for u
  proof (rule ccontr)
    assume "\<not> u < length (threads s)"
    with that(1) have "u = length (threads s)" unfolding len by simp
    with that(2) new show False by simp
  qed
  show ?thesis
  proof (rule lock_invI)
    show "mut (shared s') = Some t" if "t < length (threads s')" "wpc (threads s' ! t) \<noteq> Idle" for t
      using old[OF that] that(2) D(1)[of t] nth[of t] unfolding sh by simp
    show "t < length (threads s') \<and> wpc (threads s' ! t) \<noteq> Idle" if "mut (shared s') = Some t" for t
      using that D(2)[of t] nth[of t] unfolding sh len by simp
    show "local_ok (wpc (threads s' ! t)) (vec (shared s'))" if "t < length (threads s')" for t
    proof (cases "t < length (threads s)")
      case True
      with D(3)[of t] nth[of t] show ?thesis unfolding sh by simp
    next
      case False
      with that have "t = length (threads s)" unfolding len by simp
      with new show ?thesis by (simp add: local_ok_Idle)
    qed
  qed
next
  case join0
  then show ?thesis by (intro lock_inv_frame[OF inv]) simp_all
next
  case (join k)
  then show ?thesis by (intro lock_inv_frame[OF inv]) simp_all
next
  case (exit k)
  then show ?thesis by (intro lock_inv_frame[OF inv]) simp_all
qed


text \<open>The steps of a thread: the step of the program, and one case per statement.\<close>

lemma vector_step_thread:
  assumes "vector_step (Thread t, ok) s = Some s'"
  obtains w' sh' where "t < length (threads s)" "\<not> aborted s"
    "func_step ok t (threads s ! t) (shared s) = Some (w', sh')"
    "s' = s\<lparr>shared := sh', threads := (threads s)[t := w']\<rparr>"
proof -
  from assms have na: "\<not> aborted s" and t: "t < length (threads s)"
    by (simp_all add: vector_step_def split: if_splits)
  with assms have "(case func_step ok t (threads s ! t) (shared s) of None \<Rightarrow> None
      | Some (w, sh) \<Rightarrow> Some (s\<lparr>shared := sh, threads := (threads s)[t := w]\<rparr>)) = Some s'"
    by (simp add: vector_step_def)
  then show ?thesis
  proof (cases "func_step ok t (threads s ! t) (shared s)")
    case None
    with \<open>case_option _ _ _ = Some s'\<close> show ?thesis by simp
  next
    case (Some a)
    obtain w' sh' where a: "a = (w', sh')" by (cases a)
    with Some \<open>case_option _ _ _ = Some s'\<close> have "s' = s\<lparr>shared := sh', threads := (threads s)[t := w']\<rparr>"
      by simp
    with that[OF t na] Some a show ?thesis by simp
  qed
qed

lemma lock_mut_Some: "lock_mut t sh = Some sh' \<longleftrightarrow> mut sh = None \<and> sh' = sh\<lparr>mut := Some t\<rparr>"
  by (cases "mut sh") (auto simp: lock_mut_def mutex_lock_def)

lemma unlock_mut_Some: "unlock_mut t sh = Some sh' \<longleftrightarrow> mut sh = Some t \<and> sh' = sh\<lparr>mut := None\<rparr>"
  by (auto simp: unlock_mut_def mutex_unlock_def)

lemma func_step_cases:
  assumes fs: "func_step ok t w sh = Some (w', sh')"
  obtains
    (lock_push) i cs where "wpc w = Idle" "todo w = PushBack i # cs" "mut sh = None"
      "w' = \<lparr>todo = cs, wpc = PushLocked i\<rparr>" "sh' = sh\<lparr>mut := Some t\<rparr>"
  | (sleep) cs where "wpc w = Idle" "todo w = SleepFor # cs" "w' = \<lparr>todo = cs, wpc = Idle\<rparr>" "sh' = sh"
  | (lock_print) cs where "wpc w = Idle" "todo w = Print # cs" "mut sh = None"
      "w' = \<lparr>todo = cs, wpc = PrintTest 0\<rparr>" "sh' = sh\<lparr>mut := Some t\<rparr>"
  | (alloc) i where "wpc w = PushLocked i" "ok" "w' = w\<lparr>wpc := PushStore i (length (vec sh))\<rparr>" "sh' = sh"
  | (throw) i where "wpc w = PushLocked i" "\<not> ok" "w' = w\<lparr>wpc := Terminated\<rparr>" "sh' = sh"
  | (store) i n where "wpc w = PushStore i n" "w' = w\<lparr>wpc := PushUnlock\<rparr>"
      "sh' = sh\<lparr>vec := take n (vec sh) @ [i]\<rparr>"
  | (unlock_push) "wpc w = PushUnlock" "mut sh = Some t" "w' = w\<lparr>wpc := Idle\<rparr>" "sh' = sh\<lparr>mut := None\<rparr>"
  | (test_in) k where "wpc w = PrintTest k" "k < length (vec sh)"
      "w' = w\<lparr>wpc := PrintEmit k (vec sh ! k)\<rparr>" "sh' = sh"
  | (test_out) k where "wpc w = PrintTest k" "\<not> k < length (vec sh)" "w' = w\<lparr>wpc := PrintEndl\<rparr>" "sh' = sh"
  | (emit) k i where "wpc w = PrintEmit k i" "w' = w\<lparr>wpc := PrintTest (Suc k)\<rparr>"
      "sh' = emit (show_int i @ '', '') sh"
  | (endl) "wpc w = PrintEndl" "w' = w\<lparr>wpc := PrintUnlock\<rparr>" "sh' = emit endl sh"
  | (unlock_print) "wpc w = PrintUnlock" "mut sh = Some t" "w' = w\<lparr>wpc := Idle\<rparr>" "sh' = sh\<lparr>mut := None\<rparr>"
proof (cases "wpc w")
  case Idle
  show ?thesis
  proof (cases "todo w")
    case Nil
    with Idle fs show ?thesis by (simp add: func_step_def)
  next
    case (Cons c cs)
    show ?thesis
    proof (cases c)
      case (PushBack i)
      with Idle Cons fs have "lock_mut t sh = Some sh'" "w' = \<lparr>todo = cs, wpc = PushLocked i\<rparr>"
        by (auto simp: func_step_def split: option.splits)
      with lock_push[of i cs] Idle Cons PushBack show ?thesis by (simp add: lock_mut_Some)
    next
      case SleepFor
      with Idle Cons fs have "w' = \<lparr>todo = cs, wpc = Idle\<rparr>" "sh' = sh"
        by (auto simp: func_step_def)
      with sleep[of cs] Idle Cons SleepFor show ?thesis by simp
    next
      case Print
      with Idle Cons fs have "lock_mut t sh = Some sh'" "w' = \<lparr>todo = cs, wpc = PrintTest 0\<rparr>"
        by (auto simp: func_step_def split: option.splits)
      with lock_print[of cs] Idle Cons Print show ?thesis by (simp add: lock_mut_Some)
    qed
  qed
next
  case (PushLocked i)
  show ?thesis
  proof (cases ok)
    case True
    with PushLocked fs have "w' = w\<lparr>wpc := PushStore i (length (vec sh))\<rparr>" "sh' = sh"
      by (auto simp: func_step_def)
    with alloc[of i] PushLocked True show ?thesis by simp
  next
    case False
    with PushLocked fs have "w' = w\<lparr>wpc := Terminated\<rparr>" "sh' = sh"
      by (auto simp: func_step_def)
    with throw[of i] PushLocked False show ?thesis by simp
  qed
next
  case (PushStore i n)
  with fs have "w' = w\<lparr>wpc := PushUnlock\<rparr>" "sh' = sh\<lparr>vec := take n (vec sh) @ [i]\<rparr>"
    by (auto simp: func_step_def)
  with store[of i n] PushStore show ?thesis by simp
next
  case PushUnlock
  with fs have "unlock_mut t sh = Some sh'" "w' = w\<lparr>wpc := Idle\<rparr>"
    by (auto simp: func_step_def split: option.splits)
  with unlock_push PushUnlock show ?thesis by (simp add: unlock_mut_Some)
next
  case (PrintTest k)
  show ?thesis
  proof (cases "k < length (vec sh)")
    case True
    with PrintTest fs have "w' = w\<lparr>wpc := PrintEmit k (vec sh ! k)\<rparr>" "sh' = sh"
      by (auto simp: func_step_def)
    with test_in[of k] PrintTest True show ?thesis by simp
  next
    case False
    with PrintTest fs have "w' = w\<lparr>wpc := PrintEndl\<rparr>" "sh' = sh"
      by (auto simp: func_step_def)
    with test_out[of k] PrintTest False show ?thesis by simp
  qed
next
  case (PrintEmit k i)
  with fs have "w' = w\<lparr>wpc := PrintTest (Suc k)\<rparr>" "sh' = emit (show_int i @ '', '') sh"
    by (auto simp: func_step_def)
  with emit[of k i] PrintEmit show ?thesis by simp
next
  case PrintEndl
  with fs have "w' = w\<lparr>wpc := PrintUnlock\<rparr>" "sh' = emit endl sh"
    by (auto simp: func_step_def)
  with endl PrintEndl show ?thesis by simp
next
  case PrintUnlock
  with fs have "unlock_mut t sh = Some sh'" "w' = w\<lparr>wpc := Idle\<rparr>"
    by (auto simp: func_step_def split: option.splits)
  with unlock_print PrintUnlock show ?thesis by (simp add: unlock_mut_Some)
next
  case Terminated
  with fs show ?thesis by (simp add: func_step_def)
qed

lemma thread_update_nth:
  assumes "s' = s\<lparr>shared := sh', threads := (threads s)[t := w']\<rparr>" "t < length (threads s)"
  shows "threads s' ! t = w'" "\<And>u. u \<noteq> t \<Longrightarrow> threads s' ! u = threads s ! u"
    "length (threads s') = length (threads s)" "shared s' = sh'" "main_pc s' = main_pc s"
  using assms by simp_all

text \<open>
  The four kinds of steps of a thread \<open>t\<close>: it acquires the mutex, it stays inside a
  member function, it releases the mutex, it stays between calls.
\<close>

lemma lock_inv_acquire:
  assumes inv: "lock_inv s" and t: "t < length (threads s)"
    and s': "s' = s\<lparr>shared := sh', threads := (threads s)[t := w']\<rparr>"
    and free: "mut (shared s) = None" and own: "mut sh' = Some t" and pc: "wpc w' \<noteq> Idle"
    and lk: "local_ok (wpc w') (vec sh')"
  shows "lock_inv s'"
proof (rule lock_invI)
  note U = thread_update_nth[OF s' t]
  note I = free_all_idle[OF inv free]
  show "mut (shared s') = Some u" if "u < length (threads s')" "wpc (threads s' ! u) \<noteq> Idle" for u
  proof (cases "u = t")
    case True then show ?thesis using own U(4) by simp
  next
    case False with that I[of u] U(2)[of u] U(3) show ?thesis by simp
  qed
  show "u < length (threads s') \<and> wpc (threads s' ! u) \<noteq> Idle" if "mut (shared s') = Some u" for u
    using that own t pc U by simp
  show "local_ok (wpc (threads s' ! u)) (vec (shared s'))" if "u < length (threads s')" for u
  proof (cases "u = t")
    case True then show ?thesis using lk U by simp
  next
    case False with that I[of u] U(2)[of u] U(3) show ?thesis by (simp add: local_ok_Idle)
  qed
qed

lemma lock_inv_inside:
  assumes inv: "lock_inv s" and t: "t < length (threads s)"
    and s': "s' = s\<lparr>shared := sh', threads := (threads s)[t := w']\<rparr>"
    and was: "wpc (threads s ! t) \<noteq> Idle" and mu: "mut sh' = mut (shared s)" and pc: "wpc w' \<noteq> Idle"
    and lk: "local_ok (wpc w') (vec sh')"
  shows "lock_inv s'"
proof (rule lock_invI)
  note U = thread_update_nth[OF s' t]
  note D = lock_invD[OF inv]
  have own: "mut (shared s) = Some t" using D(1)[OF t was] .
  have I: "wpc (threads s ! u) = Idle" if "u < length (threads s)" "u \<noteq> t" for u
    using others_idle[OF inv t was that] .
  show "mut (shared s') = Some u" if "u < length (threads s')" "wpc (threads s' ! u) \<noteq> Idle" for u
  proof (cases "u = t")
    case True then show ?thesis using own mu U(4) by simp
  next
    case False with that I[of u] U(2)[of u] U(3) show ?thesis by simp
  qed
  show "u < length (threads s') \<and> wpc (threads s' ! u) \<noteq> Idle" if "mut (shared s') = Some u" for u
    using that own mu t pc U by simp
  show "local_ok (wpc (threads s' ! u)) (vec (shared s'))" if "u < length (threads s')" for u
  proof (cases "u = t")
    case True then show ?thesis using lk U by simp
  next
    case False with that I[of u] U(2)[of u] U(3) show ?thesis by (simp add: local_ok_Idle)
  qed
qed

lemma lock_inv_release:
  assumes inv: "lock_inv s" and t: "t < length (threads s)"
    and s': "s' = s\<lparr>shared := sh', threads := (threads s)[t := w']\<rparr>"
    and was: "wpc (threads s ! t) \<noteq> Idle" and mu: "mut sh' = None" and pc: "wpc w' = Idle"
  shows "lock_inv s'"
proof (rule lock_invI)
  note U = thread_update_nth[OF s' t]
  have I: "wpc (threads s ! u) = Idle" if "u < length (threads s)" "u \<noteq> t" for u
    using others_idle[OF inv t was that] .
  have all: "wpc (threads s' ! u) = Idle" if "u < length (threads s')" for u
  proof (cases "u = t")
    case True then show ?thesis using pc U by simp
  next
    case False with that I[of u] U(2)[of u] U(3) show ?thesis by simp
  qed
  show "mut (shared s') = Some u" if "u < length (threads s')" "wpc (threads s' ! u) \<noteq> Idle" for u
    using that all[of u] by simp
  show "u < length (threads s') \<and> wpc (threads s' ! u) \<noteq> Idle" if "mut (shared s') = Some u" for u
    using that mu U(4) by simp
  show "local_ok (wpc (threads s' ! u)) (vec (shared s'))" if "u < length (threads s')" for u
    using all[OF that] by (simp add: local_ok_Idle)
qed

lemma lock_inv_outside:
  assumes inv: "lock_inv s" and t: "t < length (threads s)"
    and s': "s' = s\<lparr>shared := sh', threads := (threads s)[t := w']\<rparr>"
    and was: "wpc (threads s ! t) = Idle" and sh: "sh' = shared s" and pc: "wpc w' = Idle"
  shows "lock_inv s'"
proof (rule lock_invI)
  note U = thread_update_nth[OF s' t]
  note D = lock_invD[OF inv]
  have same: "wpc (threads s' ! u) = wpc (threads s ! u)" for u
    using U(1) U(2)[of u] was pc by (cases "u = t") simp_all
  show "mut (shared s') = Some u" if "u < length (threads s')" "wpc (threads s' ! u) \<noteq> Idle" for u
    using that D(1)[of u] unfolding same U(3) U(4) sh by simp
  show "u < length (threads s') \<and> wpc (threads s' ! u) \<noteq> Idle" if "mut (shared s') = Some u" for u
    using that D(2)[of u] unfolding same U(3) U(4) sh by simp
  show "local_ok (wpc (threads s' ! u)) (vec (shared s'))" if "u < length (threads s')" for u
    using that D(3)[of u] unfolding same U(3) U(4) sh by simp
qed

lemma lock_inv_step:
  assumes inv: "lock_inv s" and st: "vector_step c s = Some s'"
  shows "lock_inv s'"
proof (cases c)
  case (Pair a ok)
  show ?thesis
  proof (cases a)
    case Main
    with st Pair have "vector_main s = Some s'" by (simp add: vector_step_def split: if_splits)
    then show ?thesis by (rule lock_inv_main[OF inv])
  next
    case (Thread t)
    with st Pair have "vector_step (Thread t, ok) s = Some s'" by simp
    then obtain w' sh' where t: "t < length (threads s)"
      and fs: "func_step ok t (threads s ! t) (shared s) = Some (w', sh')"
      and s': "s' = s\<lparr>shared := sh', threads := (threads s)[t := w']\<rparr>"
      by (rule vector_step_thread)
    note D = lock_invD[OF inv]
    from fs show ?thesis
    proof (cases rule: func_step_cases)
      case (lock_push i cs)
      then show ?thesis by (intro lock_inv_acquire[OF inv t s']) (simp_all add: local_ok_def)
    next
      case (sleep cs)
      then show ?thesis by (intro lock_inv_outside[OF inv t s']) simp_all
    next
      case (lock_print cs)
      then show ?thesis by (intro lock_inv_acquire[OF inv t s']) (simp_all add: local_ok_def)
    next
      case (alloc i)
      then show ?thesis by (intro lock_inv_inside[OF inv t s']) (simp_all add: local_ok_def)
    next
      case (throw i)
      then show ?thesis by (intro lock_inv_inside[OF inv t s']) (simp_all add: local_ok_def)
    next
      case (store i n)
      then show ?thesis by (intro lock_inv_inside[OF inv t s']) (simp_all add: local_ok_def)
    next
      case unlock_push
      then show ?thesis by (intro lock_inv_release[OF inv t s']) simp_all
    next
      case (test_in k)
      then show ?thesis by (intro lock_inv_inside[OF inv t s']) (simp_all add: local_ok_def)
    next
      case (test_out k)
      then show ?thesis by (intro lock_inv_inside[OF inv t s']) (simp_all add: local_ok_def)
    next
      case (emit k i)
      then show ?thesis by (intro lock_inv_inside[OF inv t s']) (simp_all add: local_ok_def emit_def)
    next
      case endl
      then show ?thesis by (intro lock_inv_inside[OF inv t s']) (simp_all add: local_ok_def emit_def)
    next
      case unlock_print
      then show ?thesis by (intro lock_inv_release[OF inv t s']) simp_all
    qed
  qed
qed

lemma exec_append: "exec f (xs @ ys) s = (case exec f xs s of None \<Rightarrow> None | Some s' \<Rightarrow> exec f ys s')"
  by (induction xs arbitrary: s) (simp_all split: option.splits)

lemma exec_invariant:
  assumes "exec f sched s = Some s'" "P s" "\<And>e s s'. P s \<Longrightarrow> f e s = Some s' \<Longrightarrow> P s'"
  shows "P s'"
  using assms(1,2)
proof (induction sched arbitrary: s)
  case Nil
  then show ?case by simp
next
  case (Cons e sched)
  from Cons.prems(1) obtain s1 where 1: "f e s = Some s1" and 2: "exec f sched s1 = Some s'"
    by (cases "f e s") simp_all
  from Cons.IH[OF 2 assms(3)[OF Cons.prems(2) 1]] show ?case .
qed

lemma lock_inv_exec:
  assumes "exec vector_step sched s = Some s'" "lock_inv s"
  shows "lock_inv s'"
  using assms(1,2) lock_inv_step by (rule exec_invariant)


text \<open>
  \<^verbatim>\<open>mut.unlock()\<close> is never undefined: a thread that reaches it owns the mutex.
\<close>

lemma unlock_defined:
  assumes "exec vector_step sched s0 = Some s" "lock_inv s0" "t < length (threads s)"
    "wpc (threads s ! t) = PushUnlock \<or> wpc (threads s ! t) = PrintUnlock"
  shows "unlock_mut t (shared s) = Some ((shared s)\<lparr>mut := None\<rparr>)"
proof -
  from assms(4) have "wpc (threads s ! t) \<noteq> Idle" by auto
  from lock_invD(1)[OF lock_inv_exec[OF assms(1,2)] assms(3) this] show ?thesis
    by (simp add: unlock_mut_Some)
qed

section \<open>Vector: every appended value is stored once\<close>

lemma interl_Cons_iff:
  "interl xss (x # r) \<longleftrightarrow> (\<exists>t xs. t < length xss \<and> xss ! t = x # xs \<and> interl (xss[t := xs]) r)"
proof
  assume "interl xss (x # r)"
  then obtain t where t: "t < length xss"
    and c: "(case xss ! t of [] \<Rightarrow> False | y # ys \<Rightarrow> y = x \<and> interl (xss[t := ys]) r)"
    by (auto simp: list_ex_iff)
  show "\<exists>t xs. t < length xss \<and> xss ! t = x # xs \<and> interl (xss[t := xs]) r"
  proof (cases "xss ! t")
    case Nil
    with c show ?thesis by simp
  next
    case (Cons y ys)
    with c t show ?thesis by auto
  qed
next
  assume "\<exists>t xs. t < length xss \<and> xss ! t = x # xs \<and> interl (xss[t := xs]) r"
  then obtain t xs where "t < length xss" "xss ! t = x # xs" "interl (xss[t := xs]) r" by blast
  then have "\<exists>t\<in>set [0..<length xss].
      (case xss ! t of [] \<Rightarrow> False | y # ys \<Rightarrow> y = x \<and> interl (xss[t := ys]) r)"
    by (intro bexI[of _ t]) simp_all
  then show "interl xss (x # r)" by (simp add: list_ex_iff)
qed

declare interl.simps(2) [simp del]

lemma interl_step:
  assumes "t < length xss" "xss ! t = x # xs" "interl (xss[t := xs]) r"
  shows "interl xss (x # r)"
  unfolding interl_Cons_iff using assms by blast

lemma mset_concat_update:
  assumes "t < length xss" "xss ! t = x # xs"
  shows "mset (concat xss) = add_mset x (mset (concat (xss[t := xs])))"
  using assms
proof (induction xss arbitrary: t)
  case Nil
  then show ?case by simp
next
  case (Cons ys xss)
  show ?case
  proof (cases t)
    case 0
    with Cons.prems show ?thesis by simp
  next
    case (Suc t')
    with Cons.prems Cons.IH[of t'] show ?thesis by simp
  qed
qed

lemma interl_mset: "interl xss r \<Longrightarrow> mset r = mset (concat xss)"
proof (induction r arbitrary: xss)
  case Nil
  then have "concat xss = []" by (auto simp: list_all_iff)
  then show ?case by simp
next
  case (Cons x r)
  then obtain t xs where t: "t < length xss" "xss ! t = x # xs" "interl (xss[t := xs]) r"
    unfolding interl_Cons_iff by blast
  from Cons.IH[OF t(3)] mset_concat_update[OF t(1,2)] show ?case by simp
qed

lemma interl_length: "interl xss r \<Longrightarrow> length r = length (concat xss)"
  using interl_mset[of xss r] by (metis size_mset)

lemma push_inv_init: "push_inv progs (vector_init progs)"
  by (simp add: push_inv_def pending_def vector_init_def unspawned_def)

lemma push_inv_same:
  assumes "push_inv progs s" "pending s' = pending s" "vec (shared s') = vec (shared s)"
  shows "push_inv progs s'"
  using assms(1) unfolding push_inv_def assms(2,3) .

lemma pending_update:
  assumes s': "s' = s\<lparr>shared := sh', threads := (threads s)[t := w']\<rparr>" and t: "t < length (threads s)"
  shows "pending s' = (pending s)[t := pend w']"
  using t by (simp add: s' pending_def unspawned_def map_update list_update_append)

lemma pending_nth:
  assumes "t < length (threads s)"
  shows "pending s ! t = pend (threads s ! t)" "t < length (pending s)"
  using assms by (simp_all add: pending_def nth_append)

lemma pending_update_same:
  assumes s': "s' = s\<lparr>shared := sh', threads := (threads s)[t := w']\<rparr>" and t: "t < length (threads s)"
    and "pend w' = pend (threads s ! t)"
  shows "pending s' = pending s"
  unfolding pending_update[OF s' t] assms(3) pending_nth(1)[OF t, symmetric] by simp

lemma push_inv_store:
  assumes inv: "push_inv progs s" and t: "t < length (threads s)"
    and s': "s' = s\<lparr>shared := sh', threads := (threads s)[t := w']\<rparr>"
    and p: "pend (threads s ! t) = i # pend w'" and v: "vec sh' = vec (shared s) @ [i]"
  shows "push_inv progs s'"
  unfolding push_inv_def
proof (intro allI impI)
  fix r assume "interl (pending s') r"
  then have "interl ((pending s)[t := pend w']) r" unfolding pending_update[OF s' t] .
  with pending_nth[OF t] p have "interl (pending s) (i # r)"
    by (intro interl_step[of t _ i "pend w'"]) simp_all
  with inv have "interl (map pushes progs) (vec (shared s) @ i # r)" by (simp add: push_inv_def)
  then show "interl (map pushes progs) (vec (shared s') @ r)" using v by (simp add: s')
qed

lemma push_inv_main:
  assumes inv: "push_inv progs s" and st: "vector_main s = Some s'"
  shows "push_inv progs s'"
  using st
proof (cases rule: vector_main_cases)
  case (spawn p ps)
  then show ?thesis
    by (intro push_inv_same[OF inv]) (simp_all add: pending_def unspawned_def pend_def)
next
  case join0
  then show ?thesis by (intro push_inv_same[OF inv]) (simp_all add: pending_def unspawned_def)
next
  case (join k)
  then show ?thesis by (intro push_inv_same[OF inv]) (simp_all add: pending_def unspawned_def)
next
  case (exit k)
  then show ?thesis by (intro push_inv_same[OF inv]) (simp_all add: pending_def unspawned_def)
qed

lemma aborted_update:
  assumes "s' = s\<lparr>shared := sh', threads := (threads s)[t := w']\<rparr>" "t < length (threads s)"
    "wpc w' = Terminated"
  shows "aborted s'"
proof -
  have "w' \<in> set (threads s')" using assms(1,2) by (simp add: set_update_memI)
  with assms(3) show ?thesis by (auto simp: aborted_def list_ex_iff)
qed

lemma push_inv_step:
  assumes lk: "lock_inv s" and inv: "aborted s \<or> push_inv progs s" and st: "vector_step c s = Some s'"
  shows "aborted s' \<or> push_inv progs s'"
proof -
  from st have "\<not> aborted s" by (simp add: vector_step_def split: if_splits)
  with inv have inv: "push_inv progs s" by simp
  obtain a ok where c: "c = (a, ok)" by (cases c)
  show ?thesis
  proof (cases a)
    case Main
    with st c have "vector_main s = Some s'" by (simp add: vector_step_def split: if_splits)
    from push_inv_main[OF inv this] show ?thesis ..
  next
    case (Thread t)
    with st c have "vector_step (Thread t, ok) s = Some s'" by simp
    then obtain w' sh' where t: "t < length (threads s)"
      and fs: "func_step ok t (threads s ! t) (shared s) = Some (w', sh')"
      and s': "s' = s\<lparr>shared := sh', threads := (threads s)[t := w']\<rparr>"
      by (rule vector_step_thread)
    have same: "push_inv progs s'" if "pend w' = pend (threads s ! t)" "vec sh' = vec (shared s)"
      using that(2) by (intro push_inv_same[OF inv pending_update_same[OF s' t that(1)]]) (simp add: s')
    from fs show ?thesis
    proof (cases rule: func_step_cases)
      case (lock_push i cs)
      then have "push_inv progs s'" by (intro same) (simp_all add: pend_def)
      then show ?thesis ..
    next
      case (sleep cs)
      then have "push_inv progs s'" by (intro same) (simp_all add: pend_def)
      then show ?thesis ..
    next
      case (lock_print cs)
      then have "push_inv progs s'" by (intro same) (simp_all add: pend_def)
      then show ?thesis ..
    next
      case (alloc i)
      then have "push_inv progs s'" by (intro same) (simp_all add: pend_def)
      then show ?thesis ..
    next
      case (throw i)
      then have "aborted s'" by (intro aborted_update[OF s' t]) simp
      then show ?thesis ..
    next
      case (store i n)
      from lock_invD(3)[OF lk t] store(1) have "n = length (vec (shared s))" by (simp add: local_ok_def)
      with store have "push_inv progs s'"
        by (intro push_inv_store[OF inv t s', of i]) (simp_all add: pend_def)
      then show ?thesis ..
    next
      case unlock_push
      then have "push_inv progs s'" by (intro same) (simp_all add: pend_def)
      then show ?thesis ..
    next
      case (test_in k)
      then have "push_inv progs s'" by (intro same) (simp_all add: pend_def)
      then show ?thesis ..
    next
      case (test_out k)
      then have "push_inv progs s'" by (intro same) (simp_all add: pend_def)
      then show ?thesis ..
    next
      case (emit k i)
      then have "push_inv progs s'" by (intro same) (simp_all add: pend_def emit_def)
      then show ?thesis ..
    next
      case endl
      then have "push_inv progs s'" by (intro same) (simp_all add: pend_def emit_def)
      then show ?thesis ..
    next
      case unlock_print
      then have "push_inv progs s'" by (intro same) (simp_all add: pend_def)
      then show ?thesis ..
    qed
  qed
qed

lemma finished_no_step: "finished w \<Longrightarrow> func_step ok t w sh = None"
  by (simp add: finished_def func_step_def)

lemma joined_main:
  assumes inv: "joined finished s" and st: "vector_main s = Some s'"
  shows "joined finished s'"
  using st
proof (cases rule: vector_main_cases)
  case (spawn p ps)
  then show ?thesis by (simp add: joined_def)
next
  case join0
  then show ?thesis by (simp add: joined_def)
next
  case (join k)
  from inv join(1) have jk: "\<And>j. j < k \<Longrightarrow> finished (threads s ! j)" by (simp add: joined_def)
  have "finished (threads s ! j)" if "j < Suc k" for j
    using that join(3) jk[of j] by (cases "j = k") simp_all
  with join show ?thesis by (simp add: joined_def)
next
  case (exit k)
  from inv exit(1) have kle: "k \<le> length (threads s)" and jk: "\<And>j. j < k \<Longrightarrow> finished (threads s ! j)"
    by (simp_all add: joined_def)
  have "finished (threads s ! j)" if "j < length (threads s)" for j
    using that exit(2) kle jk[of j] by simp
  with exit show ?thesis by (simp add: joined_def)
qed

lemma vector_inv_step:
  assumes inv: "vector_inv progs s" and st: "vector_step c s = Some s'"
  shows "vector_inv progs s'"
proof -
  from inv have lk: "lock_inv s" and jn: "joined finished s" and pu: "aborted s \<or> push_inv progs s"
    by (simp_all add: vector_inv_def)
  have "joined finished s'"
  proof -
    obtain a ok where c: "c = (a, ok)" by (cases c)
    show ?thesis
    proof (cases a)
      case Main
      with st c have "vector_main s = Some s'" by (simp add: vector_step_def split: if_splits)
      from joined_main[OF jn this] show ?thesis .
    next
      case (Thread t)
      with st c have "vector_step (Thread t, ok) s = Some s'" by simp
      then obtain w' sh' where t: "t < length (threads s)"
        and fs: "func_step ok t (threads s ! t) (shared s) = Some (w', sh')"
        and s': "s' = s\<lparr>shared := sh', threads := (threads s)[t := w']\<rparr>"
        by (rule vector_step_thread)
      from fs finished_no_step[of "threads s ! t" ok t "shared s"] have "\<not> finished (threads s ! t)"
        by auto
      then show ?thesis by (intro joined_update[OF jn, of t w']) (simp_all add: s')
    qed
  qed
  with lock_inv_step[OF lk st] push_inv_step[OF lk pu st] show ?thesis
    by (simp add: vector_inv_def)
qed

lemma vector_inv_init: "vector_inv progs (vector_init progs)"
  using lock_inv_init[of progs] push_inv_init[of progs]
  by (simp add: vector_inv_def) (simp add: joined_def vector_init_def)

lemma vector_inv_exec:
  assumes "exec vector_step sched s = Some s'" "vector_inv progs s"
  shows "vector_inv progs s'"
  using assms(1,2) vector_inv_step by (rule exec_invariant)

lemma vector_reachable:
  assumes "exec vector_step sched (vector_init progs) = Some s"
  shows "vector_inv progs s"
  using vector_inv_exec[OF assms vector_inv_init] .

text \<open>When main has returned, every value of every call is in the vector.\<close>

lemma exited_interl:
  assumes ex: "exec vector_step sched (vector_init progs) = Some s" and pc: "main_pc s = Exited r"
  shows "interl (map pushes progs) (vec (shared s))"
proof -
  from vector_reachable[OF ex] have jn: "joined finished s" and pu: "aborted s \<or> push_inv progs s"
    by (simp_all add: vector_inv_def)
  from jn pc have fin: "\<And>j. j < length (threads s) \<Longrightarrow> finished (threads s ! j)"
    by (simp add: joined_def)
  have "\<not> aborted s"
    using fin by (auto simp: aborted_def list_ex_iff in_set_conv_nth finished_def)
  with pu have inv: "push_inv progs s" by simp
  have "pend w = []" if "w \<in> set (threads s)" for w
    using that fin by (auto simp: in_set_conv_nth finished_def pend_def)
  then have "interl (pending s) []"
    using pc by (simp add: pending_def unspawned_def list_all_iff)
  with inv have "interl (map pushes progs) (vec (shared s) @ [])"
    unfolding push_inv_def by blast
  then show ?thesis by simp
qed

lemma pushes_func: "pushes func = [0, 1, 2, 3, 4]"
  by (simp add: func_def func_loop.simps)

section \<open>Vector: a call of print among other threads\<close>

lemma render_snoc: "k < length v \<Longrightarrow> render (take (Suc k) v) = render (take k v) @ show_int (v ! k) @ '', ''"
  by (simp add: render_def take_Suc_conv_app_nth)

lemma func_step_idle_locked:
  assumes "func_step ok u w sh = Some (w', sh')" "wpc w = Idle" "mut sh \<noteq> None"
  shows "sh' = sh \<and> wpc w' = Idle"
  using assms(1)
  by (cases rule: func_step_cases) (use assms(2,3) in simp_all)

lemma func_step_todo:
  assumes "func_step ok t w sh = Some (w', sh')"
  shows "wpc w = Idle \<and> length (todo w') < length (todo w) \<or> wpc w \<noteq> Idle \<and> todo w' = todo w"
  using assms by (cases rule: func_step_cases) simp_all

lemma printing_in_print: "printing t cs c0 v0 s \<Longrightarrow> in_print (wpc (threads s ! t))"
  by (cases "wpc (threads s ! t)") (simp_all add: printing_def in_print_def)

lemma printing_frame:
  assumes "printing t cs c0 v0 s" "threads s' ! t = threads s ! t" "shared s' = shared s"
    "length (threads s) \<le> length (threads s')"
  shows "printing t cs c0 v0 s'"
  using assms(1,4) unfolding printing_def assms(2,3) by simp

lemma printed_frame:
  assumes "printed t cs s" "threads s' ! t = threads s ! t" "length (threads s) \<le> length (threads s')"
  shows "printed t cs s'"
  using assms(1,3) unfolding printed_def assms(2) by simp

lemma main_step_frame:
  assumes "vector_main s = Some s'" "t < length (threads s)"
  shows "threads s' ! t = threads s ! t" "shared s' = shared s" "length (threads s) \<le> length (threads s')"
  using assms(1)
  by (cases rule: vector_main_cases; use assms(2) in \<open>simp add: nth_append\<close>)+

lemma printing_step:
  assumes lk: "lock_inv s" and pr: "printing t cs c0 v0 s" and st: "vector_step c s = Some s'"
  shows "printing t cs c0 v0 s' \<or> printed t cs s'"
proof -
  from pr have t: "t < length (threads s)" and td: "todo (threads s ! t) = cs"
    and v: "vec (shared s) = v0" by (simp_all add: printing_def)
  have ip: "in_print (wpc (threads s ! t))" using printing_in_print[OF pr] .
  then have nid: "wpc (threads s ! t) \<noteq> Idle" by (auto simp: in_print_def)
  have own: "mut (shared s) = Some t" using lock_invD(1)[OF lk t nid] .
  obtain a ok where c: "c = (a, ok)" by (cases c)
  show ?thesis
  proof (cases a)
    case Main
    with st c have "vector_main s = Some s'" by (simp add: vector_step_def split: if_splits)
    from printing_frame[OF pr main_step_frame[OF this t]] show ?thesis ..
  next
    case (Thread u)
    with st c have "vector_step (Thread u, ok) s = Some s'" by simp
    then obtain w' sh' where u: "u < length (threads s)"
      and fs: "func_step ok u (threads s ! u) (shared s) = Some (w', sh')"
      and s': "s' = s\<lparr>shared := sh', threads := (threads s)[u := w']\<rparr>"
      by (rule vector_step_thread)
    show ?thesis
    proof (cases "u = t")
      case False
      from others_idle[OF lk t nid u False] have "wpc (threads s ! u) = Idle" .
      from func_step_idle_locked[OF fs this] own have "sh' = shared s" by simp
      with False have "printing t cs c0 v0 s'"
        by (intro printing_frame[OF pr]) (simp_all add: s')
      then show ?thesis ..
    next
      case True
      note fs = fs[unfolded True] and s' = s'[unfolded True]
      from fs show ?thesis
      proof (cases rule: func_step_cases)
        case (test_in k)
        with pr t have "printing t cs c0 v0 s'" by (simp add: printing_def s')
        then show ?thesis ..
      next
        case (test_out k)
        with pr t have "printing t cs c0 v0 s'" by (simp add: printing_def s')
        then show ?thesis ..
      next
        case (emit k i)
        with pr t have "printing t cs c0 v0 s'"
          by (simp add: printing_def s' emit_def render_snoc)
        then show ?thesis ..
      next
        case endl
        with pr t have "printing t cs c0 v0 s'" by (simp add: printing_def s' emit_def)
        then show ?thesis ..
      next
        case unlock_print
        with td t have "printed t cs s'" by (simp add: printed_def s')
        then show ?thesis ..
      qed (use pr in \<open>simp_all add: printing_def\<close>)
    qed
  qed
qed

lemma printed_step:
  assumes pr: "printed t cs s" and st: "vector_step c s = Some s'"
  shows "printed t cs s'"
proof -
  from pr have t: "t < length (threads s)" by (simp add: printed_def)
  obtain a ok where c: "c = (a, ok)" by (cases c)
  show ?thesis
  proof (cases a)
    case Main
    with st c have "vector_main s = Some s'" by (simp add: vector_step_def split: if_splits)
    from printed_frame[OF pr main_step_frame(1,3)[OF this t]] show ?thesis .
  next
    case (Thread u)
    with st c have "vector_step (Thread u, ok) s = Some s'" by simp
    then obtain w' sh' where u: "u < length (threads s)"
      and fs: "func_step ok u (threads s ! u) (shared s) = Some (w', sh')"
      and s': "s' = s\<lparr>shared := sh', threads := (threads s)[u := w']\<rparr>"
      by (rule vector_step_thread)
    show ?thesis
    proof (cases "u = t")
      case False
      then show ?thesis by (intro printed_frame[OF pr]) (simp_all add: s')
    next
      case True
      from func_step_todo[OF fs] pr t show ?thesis
        unfolding True by (auto simp: printed_def s' True)
    qed
  qed
qed

lemma printing_exec:
  assumes "exec vector_step sched s = Some s'" "lock_inv s" "printing t cs c0 v0 s \<or> printed t cs s"
  shows "printing t cs c0 v0 s' \<or> printed t cs s'"
  using assms
proof (induction sched arbitrary: s)
  case Nil
  then show ?case by simp
next
  case (Cons c sched)
  from Cons.prems(1) obtain s1 where 1: "vector_step c s = Some s1" and 2: "exec vector_step sched s1 = Some s'"
    by (cases "vector_step c s") simp_all
  from Cons.prems(3) have "printing t cs c0 v0 s1 \<or> printed t cs s1"
    using printing_step[OF Cons.prems(2) _ 1] printed_step[OF _ 1] by blast
  from Cons.IH[OF 2 lock_inv_step[OF Cons.prems(2) 1] this] show ?case .
qed

text \<open>A whole call of print, from the step that acquires the mutex.\<close>

lemma print_call_snapshot:
  assumes lk: "lock_inv s0" and t: "t < length (threads s0)"
    and w: "threads s0 ! t = \<lparr>todo = Print # cs, wpc = Idle\<rparr>"
    and run: "exec vector_step ((Thread t, ok) # mid) s0 = Some s2"
    and fin: "threads s2 ! t = \<lparr>todo = cs, wpc = PrintUnlock\<rparr>"
  shows "cout (shared s2) = cout (shared s0) @ render (vec (shared s0)) @ endl"
    "vec (shared s2) = vec (shared s0)"
    "\<And>u. u < length (threads s0) \<Longrightarrow> wpc (threads s0 ! u) = Idle"
    "mut (shared s0) = None"
proof -
  from run obtain s1 where 1: "vector_step (Thread t, ok) s0 = Some s1"
    and 2: "exec vector_step mid s1 = Some s2"
    by (cases "vector_step (Thread t, ok) s0") simp_all
  from 1 obtain w' sh' where fs: "func_step ok t (threads s0 ! t) (shared s0) = Some (w', sh')"
    and s1: "s1 = s0\<lparr>shared := sh', threads := (threads s0)[t := w']\<rparr>"
    by (rule vector_step_thread)
  from fs have free: "mut (shared s0) = None" and w': "w' = \<lparr>todo = cs, wpc = PrintTest 0\<rparr>"
    and sh': "sh' = (shared s0)\<lparr>mut := Some t\<rparr>"
    by (cases rule: func_step_cases; simp add: w)+
  show "wpc (threads s0 ! u) = Idle" if "u < length (threads s0)" for u
    using free_all_idle[OF lk free that] .
  show "mut (shared s0) = None" by (rule free)
  have "printing t cs (cout (shared s0)) (vec (shared s0)) s1"
    using t by (simp add: printing_def s1 w' sh' render_def)
  with printing_exec[OF 2 lock_inv_step[OF lk 1]]
  have "printing t cs (cout (shared s0)) (vec (shared s0)) s2 \<or> printed t cs s2" by blast
  moreover have "\<not> printed t cs s2" using fin by (simp add: printed_def)
  ultimately have "printing t cs (cout (shared s0)) (vec (shared s0)) s2" by blast
  with fin show "cout (shared s2) = cout (shared s0) @ render (vec (shared s0)) @ endl"
    "vec (shared s2) = vec (shared s0)"
    by (simp_all add: printing_def)
qed

section \<open>Vector: concrete executions and the member functions run to their end\<close>

lemma run2_pre: "exec vector_step sched2_pre (vector_init progs2) = Some state2_pre"
  by code_simp

lemma run2_lock: "vector_step (Thread 0, True) state2_pre = Some state2_locked"
  by code_simp

lemma run2_mid: "exec vector_step ((Thread 0, True) # sched2_mid) state2_pre = Some state2_mid"
  by code_simp

lemma run2_post: "exec vector_step sched2_post state2_mid = Some state2_final"
  by code_simp

lemma exec_append_Some:
  assumes "exec f xs s = Some s1" "exec f ys s1 = Some s2"
  shows "exec f (xs @ ys) s = Some s2"
  using assms by (simp add: exec_append)

lemma run2_all:
  "exec vector_step (sched2_pre @ ((Thread 0, True) # sched2_mid) @ sched2_post) (vector_init progs2) =
   Some state2_final"
  by (rule exec_append_Some[OF run2_pre exec_append_Some[OF run2_mid run2_post]])

lemma run2_locked:
  "exec vector_step (sched2_pre @ [(Thread 0, True)]) (vector_init progs2) = Some state2_locked"
  by (rule exec_append_Some[OF run2_pre]) (simp add: run2_lock)

lemma run2_sleep: "vector_step (Thread 1, True) state2_locked = Some state2_slept"
  by code_simp

lemma run2_unlock: "vector_step (Thread 0, True) state2_mid = Some state2_unlocked"
  by code_simp

lemma run_serial: "vector_program sched_serial = Some state_serial"
  by code_simp

lemma print_loop_render: "print_loop v sh = sh\<lparr>cout := cout sh @ render v\<rparr>"
  by (induction v arbitrary: sh) (simp_all add: render_def emit_def)

lemma Vector_print_eq:
  "Vector_print t sh =
     (if mut sh = None then Returns (sh\<lparr>cout := cout sh @ render (vec sh) @ endl\<rparr>) else Blocks)"
  by (cases "mut sh")
     (simp_all add: Vector_print_def lock_mut_def unlock_mut_def mutex_lock_def mutex_unlock_def
        print_loop_render emit_def)

lemma push_back_eq:
  "push_back ok t i sh =
     (if mut sh \<noteq> None then Blocks
      else if ok then Returns (sh\<lparr>vec := vec sh @ [i]\<rparr>)
      else Throws bad_alloc (sh\<lparr>mut := Some t\<rparr>))"
  by (cases "mut sh")
     (simp_all add: push_back_def lock_mut_def unlock_mut_def mutex_lock_def mutex_unlock_def
        vector_push_back_def)

lemma render_join:
  "render v = (if v = [] then [] else join '', '' (map show_int v) @ '', '')"
proof (induction v)
  case Nil
  then show ?case by (simp add: render_def)
next
  case (Cons a v)
  then show ?case by (cases v) (simp_all add: render_def)
qed

section \<open>Vector: the sequence only grows; the exit status\<close>

lemma vec_prefix_step:
  assumes lk: "lock_inv s" and st: "vector_step c s = Some s'"
  shows "prefix (vec (shared s)) (vec (shared s'))"
proof -
  obtain a ok where c: "c = (a, ok)" by (cases c)
  show ?thesis
  proof (cases a)
    case Main
    with st c have "vector_main s = Some s'" by (simp add: vector_step_def split: if_splits)
    then have "shared s' = shared s" by (cases rule: vector_main_cases) simp_all
    then show ?thesis by simp
  next
    case (Thread t)
    with st c have "vector_step (Thread t, ok) s = Some s'" by simp
    then obtain w' sh' where t: "t < length (threads s)"
      and fs: "func_step ok t (threads s ! t) (shared s) = Some (w', sh')"
      and s': "s' = s\<lparr>shared := sh', threads := (threads s)[t := w']\<rparr>"
      by (rule vector_step_thread)
    from fs show ?thesis
    proof (cases rule: func_step_cases)
      case (store i n)
      from lock_invD(3)[OF lk t] store(1) have "n = length (vec (shared s))" by (simp add: local_ok_def)
      with store show ?thesis by (simp add: s')
    qed (simp_all add: s' emit_def)
  qed
qed

lemma vec_prefix_exec:
  assumes "exec vector_step sched s = Some s'" "lock_inv s"
  shows "prefix (vec (shared s)) (vec (shared s'))"
  using assms
proof (induction sched arbitrary: s)
  case Nil
  then show ?case by simp
next
  case (Cons c sched)
  from Cons.prems(1) obtain s1 where 1: "vector_step c s = Some s1" and 2: "exec vector_step sched s1 = Some s'"
    by (cases "vector_step c s") simp_all
  from vec_prefix_step[OF Cons.prems(2) 1] Cons.IH[OF 2 lock_inv_step[OF Cons.prems(2) 1]]
  show ?case by (rule prefix_order.trans)
qed

lemma exit_ok_sink_step:
  assumes "exit_ok s" "sink_step f a s = Some s'"
  shows "exit_ok s'"
proof (cases a)
  case Main
  with assms(2) have m: "sink_main s = Some s'" by (simp add: sink_step_def)
  show ?thesis
  proof (cases "main_pc s")
    case (Spawning ms)
    with m show ?thesis by (cases ms) (auto simp: sink_main_def exit_ok_def)
  next
    case (Joining k)
    with m show ?thesis by (auto simp: sink_main_def exit_ok_def split: if_splits)
  next
    case Endl
    with m show ?thesis by (auto simp: sink_main_def exit_ok_def)
  next
    case (Exited r)
    with m show ?thesis by (simp add: sink_main_def)
  qed
next
  case (Thread t)
  with assms(2) have "main_pc s' = main_pc s"
    by (auto simp: sink_step_def split: if_splits option.splits)
  with assms(1) show ?thesis by (simp add: exit_ok_def)
qed

lemma exit_ok_vector_step:
  assumes "exit_ok s" "vector_step c s = Some s'"
  shows "exit_ok s'"
proof -
  obtain a ok where c: "c = (a, ok)" by (cases c)
  show ?thesis
  proof (cases a)
    case Main
    with assms(2) c have "vector_main s = Some s'" by (simp add: vector_step_def split: if_splits)
    then show ?thesis by (cases rule: vector_main_cases) (simp_all add: exit_ok_def)
  next
    case (Thread t)
    with assms(2) c have "vector_step (Thread t, ok) s = Some s'" by simp
    then obtain w' sh' where "s' = s\<lparr>shared := sh', threads := (threads s)[t := w']\<rparr>"
      by (rule vector_step_thread)
    with assms(1) show ?thesis by (simp add: exit_ok_def)
  qed
qed

lemma exit_ok_init: "exit_ok (sink_init msgs)" "exit_ok (vector_init progs)"
  by (simp_all add: exit_ok_def sink_init_def vector_init_def)

lemma exit_okD: "exit_ok s \<Longrightarrow> main_pc s = Exited r \<Longrightarrow> r = 0"
  by (simp add: exit_ok_def)

section \<open>Vector: the member functions as the steps of one thread\<close>

lemma vector_step_threadI:
  assumes "\<not> aborted s" "t < length (threads s)"
    "func_step ok t (threads s ! t) (shared s) = Some (w', sh')"
  shows "vector_step (Thread t, ok) s = Some (s\<lparr>shared := sh', threads := (threads s)[t := w']\<rparr>)"
  using assms by (simp add: vector_step_def)

lemma not_aborted_update:
  assumes "\<not> aborted s" "wpc w' \<noteq> Terminated"
  shows "\<not> aborted (s\<lparr>shared := sh', threads := (threads s)[t := w']\<rparr>)"
proof -
  have "set ((threads s)[t := w']) \<subseteq> insert w' (set (threads s))" by (rule set_update_subset_insert)
  with assms show ?thesis by (auto simp: aborted_def list_ex_iff)
qed

text \<open>
  One statement of thread \<open>t\<close>, in a state given by its parts: the shared memory, the
  thread's own record and the rest.
\<close>

lemma thread_step:
  assumes "\<not> aborted s" "t < length (threads s)" "threads s ! t = w" "shared s = sh"
    "func_step ok t w sh = Some (w', sh')"
  shows "vector_step (Thread t, ok) s = Some (s\<lparr>shared := sh', threads := (threads s)[t := w']\<rparr>)"
    "wpc w' \<noteq> Terminated \<Longrightarrow> \<not> aborted (s\<lparr>shared := sh', threads := (threads s)[t := w']\<rparr>)"
  using vector_step_threadI[where s = s and t = t and ok = ok and w' = w' and sh' = sh']
    not_aborted_update[where s = s and t = t and w' = w' and sh' = sh'] assms by simp_all

lemma push_back_solo:
  assumes na: "\<not> aborted s" and t: "t < length (threads s)"
    and w: "threads s ! t = \<lparr>todo = PushBack i # cs, wpc = Idle\<rparr>"
    and r: "push_back True t i (shared s) = Returns sh'"
  shows "exec vector_step [(Thread t, True), (Thread t, True), (Thread t, True), (Thread t, True)] s =
         Some (s\<lparr>shared := sh', threads := (threads s)[t := \<lparr>todo = cs, wpc = Idle\<rparr>]\<rparr>)"
proof -
  from r have free: "mut (shared s) = None" and sh': "sh' = (shared s)\<lparr>vec := vec (shared s) @ [i]\<rparr>"
    by (simp_all add: push_back_eq split: if_splits)
  define s1 where "s1 = s\<lparr>shared := (shared s)\<lparr>mut := Some t\<rparr>,
    threads := (threads s)[t := \<lparr>todo = cs, wpc = PushLocked i\<rparr>]\<rparr>"
  define s2 where "s2 = s1\<lparr>shared := shared s1,
    threads := (threads s1)[t := \<lparr>todo = cs, wpc = PushStore i (length (vec (shared s)))\<rparr>]\<rparr>"
  define s3 where "s3 = s2\<lparr>shared := (shared s2)\<lparr>vec := vec (shared s) @ [i]\<rparr>,
    threads := (threads s2)[t := \<lparr>todo = cs, wpc = PushUnlock\<rparr>]\<rparr>"
  define s4 where "s4 = s3\<lparr>shared := (shared s3)\<lparr>mut := None\<rparr>,
    threads := (threads s3)[t := \<lparr>todo = cs, wpc = Idle\<rparr>]\<rparr>"
  have 1: "vector_step (Thread t, True) s = Some s1" "\<not> aborted s1"
    unfolding s1_def using free
    by (intro thread_step[OF na t w refl]; simp add: func_step_def lock_mut_def mutex_lock_def)+
  have t1: "t < length (threads s1)" "threads s1 ! t = \<lparr>todo = cs, wpc = PushLocked i\<rparr>"
    using t by (simp_all add: s1_def)
  have 2: "vector_step (Thread t, True) s1 = Some s2" "\<not> aborted s2"
    unfolding s2_def
    by (intro thread_step[OF 1(2) t1 refl]; simp add: func_step_def s1_def)+
  have t2: "t < length (threads s2)"
    "threads s2 ! t = \<lparr>todo = cs, wpc = PushStore i (length (vec (shared s)))\<rparr>"
    using t by (simp_all add: s2_def s1_def)
  have 3: "vector_step (Thread t, True) s2 = Some s3" "\<not> aborted s3"
    unfolding s3_def
    by (intro thread_step[OF 2(2) t2 refl]; simp add: func_step_def s2_def s1_def)+
  have t3: "t < length (threads s3)" "threads s3 ! t = \<lparr>todo = cs, wpc = PushUnlock\<rparr>"
    using t by (simp_all add: s3_def s2_def s1_def)
  have 4: "vector_step (Thread t, True) s3 = Some s4"
    unfolding s4_def
    by (intro thread_step(1)[OF 3(2) t3 refl])
       (simp add: func_step_def unlock_mut_def mutex_unlock_def s3_def s2_def s1_def)
  have "s4 = s\<lparr>shared := sh', threads := (threads s)[t := \<lparr>todo = cs, wpc = Idle\<rparr>]\<rparr>"
    using free by (simp add: s4_def s3_def s2_def s1_def sh')
  with 1(1) 2(1) 3(1) 4 show ?thesis by simp
qed


lemma aborted_no_step: "aborted s \<Longrightarrow> vector_step c s = None"
  by (simp add: vector_step_def)

text \<open>
  The failure path of \<^verbatim>\<open>push_back\<close> in the program: the thread is left by the exception
  while it owns the mutex, the process is aborted, and no step follows in which the mutex
  could be released.
\<close>

lemma push_back_throw_solo:
  assumes na: "\<not> aborted s" and t: "t < length (threads s)"
    and w: "threads s ! t = \<lparr>todo = PushBack i # cs, wpc = Idle\<rparr>"
    and r: "push_back False t i (shared s) = Throws e sh'"
    and s': "s' = s\<lparr>shared := sh', threads := (threads s)[t := \<lparr>todo = cs, wpc = Terminated\<rparr>]\<rparr>"
  shows "exec vector_step [(Thread t, ok), (Thread t, False)] s = Some s'"
    "mut (shared s') = Some t" "vector_step c s' = None"
proof -
  from r have free: "mut (shared s) = None" and sh': "sh' = (shared s)\<lparr>mut := Some t\<rparr>"
    by (simp_all add: push_back_eq split: if_splits)
  define s1 where "s1 = s\<lparr>shared := (shared s)\<lparr>mut := Some t\<rparr>,
    threads := (threads s)[t := \<lparr>todo = cs, wpc = PushLocked i\<rparr>]\<rparr>"
  have 1: "vector_step (Thread t, ok) s = Some s1" "\<not> aborted s1"
    unfolding s1_def using free
    by (intro thread_step[OF na t w refl]; simp add: func_step_def lock_mut_def mutex_lock_def)+
  have t1: "t < length (threads s1)" "threads s1 ! t = \<lparr>todo = cs, wpc = PushLocked i\<rparr>"
    using t by (simp_all add: s1_def)
  have "vector_step (Thread t, False) s1 =
      Some (s1\<lparr>shared := shared s1, threads := (threads s1)[t := \<lparr>todo = cs, wpc = Terminated\<rparr>]\<rparr>)"
    by (intro thread_step(1)[OF 1(2) t1 refl]) (simp add: func_step_def)
  moreover have "s1\<lparr>shared := shared s1, threads := (threads s1)[t := \<lparr>todo = cs, wpc = Terminated\<rparr>]\<rparr> = s'"
    by (simp add: s1_def s' sh')
  ultimately show "exec vector_step [(Thread t, ok), (Thread t, False)] s = Some s'"
    using 1(1) by simp
  show "mut (shared s') = Some t" by (simp add: s' sh')
  have "aborted s'" using t by (intro aborted_update[OF s' t]) simp
  then show "vector_step c s' = None" by (rule aborted_no_step)
qed

lemma render_Cons: "render (i # v) = show_int i @ '', '' @ render v"
  by (simp add: render_def)

lemma print_loop_solo:
  assumes "\<not> aborted s" "t < length (threads s)" "threads s ! t = \<lparr>todo = cs, wpc = PrintTest k\<rparr>"
    "k \<le> length (vec (shared s))" "n = length (vec (shared s)) - k"
  shows "exec vector_step (solo t (2 * n)) s =
         Some (s\<lparr>shared := (shared s)\<lparr>cout := cout (shared s) @ render (drop k (vec (shared s)))\<rparr>,
                 threads := (threads s)[t := \<lparr>todo = cs, wpc = PrintTest (length (vec (shared s)))\<rparr>]\<rparr>)"
  using assms
proof (induction n arbitrary: s k)
  case 0
  then have k: "k = length (vec (shared s))" by simp
  have "(threads s)[t := \<lparr>todo = cs, wpc = PrintTest (length (vec (shared s)))\<rparr>] = threads s"
    using "0.prems"(3) unfolding k by (metis list_update_id)
  then show ?case by (simp add: solo_def k render_def)
next
  case (Suc n)
  then have k: "k < length (vec (shared s))" by simp
  define s1 where "s1 = s\<lparr>shared := shared s,
    threads := (threads s)[t := \<lparr>todo = cs, wpc = PrintEmit k (vec (shared s) ! k)\<rparr>]\<rparr>"
  define s2 where "s2 = s1\<lparr>shared := emit (show_int (vec (shared s) ! k) @ '', '') (shared s1),
    threads := (threads s1)[t := \<lparr>todo = cs, wpc = PrintTest (Suc k)\<rparr>]\<rparr>"
  have 1: "vector_step (Thread t, True) s = Some s1" "\<not> aborted s1"
    unfolding s1_def using k
    by (intro thread_step[OF Suc.prems(1,2,3) refl]; simp add: func_step_def)+
  have t1: "t < length (threads s1)"
    "threads s1 ! t = \<lparr>todo = cs, wpc = PrintEmit k (vec (shared s) ! k)\<rparr>"
    using Suc.prems(2) by (simp_all add: s1_def)
  have 2: "vector_step (Thread t, True) s1 = Some s2" "\<not> aborted s2"
    unfolding s2_def
    by (intro thread_step[OF 1(2) t1 refl]; simp add: func_step_def)+
  have t2: "t < length (threads s2)" "threads s2 ! t = \<lparr>todo = cs, wpc = PrintTest (Suc k)\<rparr>"
    "Suc k \<le> length (vec (shared s2))" "n = length (vec (shared s2)) - Suc k"
    using Suc.prems(2,5) k by (simp_all add: s2_def s1_def emit_def)
  have "exec vector_step (solo t (2 * Suc n)) s = exec vector_step (solo t (2 * n)) s2"
    using 1(1) 2(1) by (simp add: solo_def)
  also note Suc.IH[OF 2(2) t2]
  also have "s2\<lparr>shared := (shared s2)\<lparr>cout := cout (shared s2) @ render (drop (Suc k) (vec (shared s2)))\<rparr>,
          threads := (threads s2)[t := \<lparr>todo = cs, wpc = PrintTest (length (vec (shared s2)))\<rparr>]\<rparr> =
      s\<lparr>shared := (shared s)\<lparr>cout := cout (shared s) @ render (drop k (vec (shared s)))\<rparr>,
         threads := (threads s)[t := \<lparr>todo = cs, wpc = PrintTest (length (vec (shared s)))\<rparr>]\<rparr>"
    using Cons_nth_drop_Suc[OF k, symmetric]
    by (simp add: s2_def s1_def emit_def render_Cons)
  finally show ?case .
qed

lemma print_solo:
  assumes na: "\<not> aborted s" and t: "t < length (threads s)"
    and w: "threads s ! t = \<lparr>todo = Print # cs, wpc = Idle\<rparr>"
    and r: "Vector_print t (shared s) = Returns sh'"
  shows "exec vector_step ((Thread t, True) # solo t (2 * length (vec (shared s))) @ solo t 3) s =
         Some (s\<lparr>shared := sh', threads := (threads s)[t := \<lparr>todo = cs, wpc = Idle\<rparr>]\<rparr>)"
proof -
  let ?v = "vec (shared s)"
  from r have free: "mut (shared s) = None"
    and sh': "sh' = (shared s)\<lparr>cout := cout (shared s) @ render ?v @ endl\<rparr>"
    by (simp_all add: Vector_print_eq split: if_splits)
  define s1 where "s1 = s\<lparr>shared := (shared s)\<lparr>mut := Some t\<rparr>,
    threads := (threads s)[t := \<lparr>todo = cs, wpc = PrintTest 0\<rparr>]\<rparr>"
  define s2 where "s2 = s1\<lparr>shared := (shared s1)\<lparr>cout := cout (shared s1) @ render (drop 0 (vec (shared s1)))\<rparr>,
    threads := (threads s1)[t := \<lparr>todo = cs, wpc = PrintTest (length (vec (shared s1)))\<rparr>]\<rparr>"
  define s3 where "s3 = s2\<lparr>shared := shared s2, threads := (threads s2)[t := \<lparr>todo = cs, wpc = PrintEndl\<rparr>]\<rparr>"
  define s4 where "s4 = s3\<lparr>shared := emit endl (shared s3),
    threads := (threads s3)[t := \<lparr>todo = cs, wpc = PrintUnlock\<rparr>]\<rparr>"
  define s5 where "s5 = s4\<lparr>shared := (shared s4)\<lparr>mut := None\<rparr>,
    threads := (threads s4)[t := \<lparr>todo = cs, wpc = Idle\<rparr>]\<rparr>"
  have 1: "vector_step (Thread t, True) s = Some s1" "\<not> aborted s1"
    unfolding s1_def using free
    by (intro thread_step[OF na t w refl]; simp add: func_step_def lock_mut_def mutex_lock_def)+
  have t1: "t < length (threads s1)" "threads s1 ! t = \<lparr>todo = cs, wpc = PrintTest 0\<rparr>"
    "0 \<le> length (vec (shared s1))" "length ?v = length (vec (shared s1)) - 0"
    using t by (simp_all add: s1_def)
  have 2: "exec vector_step (solo t (2 * length ?v)) s1 = Some s2"
    unfolding s2_def by (rule print_loop_solo[OF 1(2) t1])
  have na2: "\<not> aborted s2"
    unfolding s2_def by (intro not_aborted_update[OF 1(2)]) simp
  have t2: "t < length (threads s2)" "threads s2 ! t = \<lparr>todo = cs, wpc = PrintTest (length ?v)\<rparr>"
    using t by (simp_all add: s2_def s1_def)
  have 3: "vector_step (Thread t, True) s2 = Some s3" "\<not> aborted s3"
    unfolding s3_def
    by (intro thread_step[OF na2 t2 refl]; simp add: func_step_def s2_def s1_def)+
  have t3: "t < length (threads s3)" "threads s3 ! t = \<lparr>todo = cs, wpc = PrintEndl\<rparr>"
    using t by (simp_all add: s3_def s2_def s1_def)
  have 4: "vector_step (Thread t, True) s3 = Some s4" "\<not> aborted s4"
    unfolding s4_def
    by (intro thread_step[OF 3(2) t3 refl]; simp add: func_step_def)+
  have t4: "t < length (threads s4)" "threads s4 ! t = \<lparr>todo = cs, wpc = PrintUnlock\<rparr>"
    using t by (simp_all add: s4_def s3_def s2_def s1_def)
  have 5: "vector_step (Thread t, True) s4 = Some s5"
    unfolding s5_def
    by (intro thread_step(1)[OF 4(2) t4 refl])
       (simp add: func_step_def unlock_mut_def mutex_unlock_def s4_def s3_def s2_def s1_def emit_def)
  have "exec vector_step (solo t 3) s2 = Some s5"
    using 3(1) 4(1) 5 by (simp add: solo_def numeral_3_eq_3)
  with 2 have "exec vector_step (solo t (2 * length ?v) @ solo t 3) s1 = Some s5"
    by (simp add: exec_append)
  moreover have "s5 = s\<lparr>shared := sh', threads := (threads s)[t := \<lparr>todo = cs, wpc = Idle\<rparr>]\<rparr>"
    using free by (simp add: s5_def s4_def s3_def s2_def s1_def sh' emit_def)
  ultimately show ?thesis using 1(1) by simp
qed

section \<open>No deadlock\<close>

text \<open>
  No deadlock: as long as \<^verbatim>\<open>main\<close> has not returned (and no exception has aborted the
  process), some thread can take a step.
\<close>

lemma vector_no_endl_step:
  assumes "main_pc s \<noteq> Endl" "vector_step c s = Some s'"
  shows "main_pc s' \<noteq> Endl"
proof -
  obtain a ok where c: "c = (a, ok)" by (cases c)
  show ?thesis
  proof (cases a)
    case Main
    with assms(2) c have "vector_main s = Some s'" by (simp add: vector_step_def split: if_splits)
    then show ?thesis by (cases rule: vector_main_cases) simp_all
  next
    case (Thread t)
    with assms(2) c have "vector_step (Thread t, ok) s = Some s'" by simp
    then obtain w' sh' where "s' = s\<lparr>shared := sh', threads := (threads s)[t := w']\<rparr>"
      by (rule vector_step_thread)
    with assms(1) show ?thesis by simp
  qed
qed

lemma owner_can_step:
  assumes "mut sh = Some t" "wpc w \<noteq> Idle" "wpc w \<noteq> Terminated"
  shows "func_step True t w sh \<noteq> None"
  using assms
  by (cases "wpc w") (simp_all add: func_step_def unlock_mut_def mutex_unlock_def)

lemma idle_can_step:
  assumes "mut sh = None" "wpc w = Idle" "todo w \<noteq> []"
  shows "func_step True t w sh \<noteq> None"
proof (cases "todo w")
  case Nil
  with assms(3) show ?thesis by simp
next
  case (Cons c cs)
  with assms(1,2) show ?thesis
    by (cases c) (simp_all add: func_step_def lock_mut_def mutex_lock_def)
qed

lemma thread_can_step:
  assumes "\<not> aborted s" "t < length (threads s)" "func_step True t (threads s ! t) (shared s) \<noteq> None"
  shows "vector_step (Thread t, True) s \<noteq> None"
  using assms by (auto simp: vector_step_def)

lemma vector_progress:
  assumes ex: "exec vector_step sched (vector_init progs) = Some s"
    and na: "\<not> aborted s" and ne: "\<And>r. main_pc s \<noteq> Exited r"
  shows "\<exists>a. vector_step (a, True) s \<noteq> None"
proof -
  from vector_reachable[OF ex] have lk: "lock_inv s" by (simp add: vector_inv_def)
  have "main_pc (vector_init progs) \<noteq> Endl" by (simp add: vector_init_def)
  with ex have nl: "main_pc s \<noteq> Endl" using vector_no_endl_step by (rule exec_invariant)
  have main: "vector_step (Main, True) s \<noteq> None" if "vector_main s \<noteq> None"
    using that na by (simp add: vector_step_def)
  show ?thesis
  proof (cases "mut (shared s)")
    case (Some t)
    from lock_invD(2)[OF lk Some] have t: "t < length (threads s)" and nid: "wpc (threads s ! t) \<noteq> Idle"
      by simp_all
    from na t have "wpc (threads s ! t) \<noteq> Terminated"
      by (auto simp: aborted_def list_ex_iff)
    from thread_can_step[OF na t owner_can_step[OF Some nid this]] show ?thesis ..
  next
    case None
    show ?thesis
    proof (cases "main_pc s")
      case (Spawning ps)
      then have "vector_main s \<noteq> None" by (cases ps) (simp_all add: vector_main_def)
      from main[OF this] show ?thesis ..
    next
      case (Joining k)
      show ?thesis
      proof (cases "k < length (threads s) \<and> \<not> finished (threads s ! k)")
        case False
        with Joining have "vector_main s \<noteq> None" by (auto simp: vector_main_def)
        from main[OF this] show ?thesis ..
      next
        case True
        then have k: "k < length (threads s)" and nf: "\<not> finished (threads s ! k)" by simp_all
        from free_all_idle[OF lk None k] nf have "wpc (threads s ! k) = Idle" "todo (threads s ! k) \<noteq> []"
          by (simp_all add: finished_def)
        from thread_can_step[OF na k idle_can_step[OF None this]] show ?thesis ..
      qed
    next
      case Endl
      with nl show ?thesis by simp
    next
      case (Exited r)
      with ne[of r] show ?thesis by blast
    qed
  qed
qed

lemma sink_progress:
  assumes ex: "exec (sink_step unscrambled_printString) sched (sink_init msgs) = Some s"
    and ne: "\<And>r. main_pc s \<noteq> Exited r"
  shows "\<exists>a. sink_step unscrambled_printString a s \<noteq> None"
proof -
  from sink_inv_exec[OF ex sink_inv_init] obtain fin where inv: "sink_inv msgs s fin" ..
  note D = sink_invD[OF inv]
  have thread: "sink_step unscrambled_printString (Thread t) s \<noteq> None"
    if "t < length (threads s)" "unscrambled_printString t (threads s ! t) (shared s) \<noteq> None" for t
    using that by (auto simp: sink_step_def)
  have main: "sink_step unscrambled_printString Main s \<noteq> None" if "sink_main s \<noteq> None"
    using that by (simp add: sink_step_def)
  show ?thesis
  proof (cases "coutMutex (shared s)")
    case (Some t)
    from D(5)[OF Some] obtain k where t: "t < length (threads s)" and k: "ppc (threads s ! t) = InLoop k"
      by blast
    from Some k have "unscrambled_printString t (threads s ! t) (shared s) \<noteq> None"
      by (simp add: unscrambled_printString_def mutex_unlock_def emit_char_def)
    from thread[OF t this] show ?thesis ..
  next
    case None
    show ?thesis
    proof (cases "main_pc s")
      case (Spawning ms)
      then have "sink_main s \<noteq> None" by (cases ms) (simp_all add: sink_main_def)
      from main[OF this] show ?thesis ..
    next
      case (Joining k)
      show ?thesis
      proof (cases "k < length (threads s) \<and> ppc (threads s ! k) \<noteq> Returned")
        case False
        with Joining have "sink_main s \<noteq> None" by (auto simp: sink_main_def)
        from main[OF this] show ?thesis ..
      next
        case True
        then have k: "k < length (threads s)" and nr: "ppc (threads s ! k) \<noteq> Returned" by simp_all
        have "ppc (threads s ! k) = Entry"
        proof (cases "ppc (threads s ! k)")
          case (InLoop j)
          from D(4)[OF k InLoop] None show ?thesis by simp
        qed (use nr in simp_all)
        with None have "unscrambled_printString k (threads s ! k) (shared s) \<noteq> None"
          by (simp add: unscrambled_printString_def mutex_lock_def)
        from thread[OF k this] show ?thesis ..
      qed
    next
      case Endl
      then have "sink_main s \<noteq> None" by (simp add: sink_main_def)
      from main[OF this] show ?thesis ..
    next
      case (Exited r)
      with ne[of r] show ?thesis by blast
    qed
  qed
qed

section \<open>Vector: the claims\<close>

text \<open>
  C2 (as stated, refuted). \<^verbatim>\<open>push_back\<close> does not release the mutex on every exit path:
  when \<^verbatim>\<open>vec.push_back\<close> throws, the exception leaves the function with the mutex still
  owned by the calling thread.
\<close>

theorem push_back_throw_keeps_lock:
  "push_back False 0 7 \<lparr>cout = [], mut = None, vec = []\<rparr> =
   Throws bad_alloc \<lparr>cout = [], mut = Some 0, vec = []\<rparr>"
  by (simp add: push_back_eq)

text \<open>
  C2 (amended). \<^verbatim>\<open>push_back(i)\<close> by thread \<open>t\<close> waits while the mutex is owned;
  on a free mutex it acquires it, and either appends \<open>i\<close> after the elements already
  stored and returns with the mutex released, or, when \<^verbatim>\<open>vec.push_back\<close> throws, is
  left by the exception with the sequence unchanged and the mutex still owned by \<open>t\<close>.
\<close>

theorem push_back_exits:
  "push_back ok t i sh =
     (if mut sh \<noteq> None then Blocks
      else if ok then Returns (sh\<lparr>vec := vec sh @ [i], mut := None\<rparr>)
      else Throws bad_alloc (sh\<lparr>mut := Some t\<rparr>))"
proof (cases "mut sh")
  case None
  then have l: "lock_mut t sh = Some (sh\<lparr>mut := Some t\<rparr>)"
    by (simp add: lock_mut_def mutex_lock_def)
  show ?thesis
  proof (cases ok)
    case True
    have "unlock_mut t (sh\<lparr>mut := Some t, vec := vec sh @ [i]\<rparr>) =
        Some (sh\<lparr>vec := vec sh @ [i], mut := None\<rparr>)"
      by (simp add: unlock_mut_def mutex_unlock_def)
    with None True l show ?thesis by (simp add: push_back_def vector_push_back_def)
  next
    case False
    with None l show ?thesis by (simp add: push_back_def vector_push_back_def)
  qed
next
  case (Some u)
  then have "lock_mut t sh = None" by (simp add: lock_mut_def mutex_lock_def)
  with Some show ?thesis by (simp add: push_back_def)
qed

theorem push_back_exits_witness:
  "push_back True 0 7 \<lparr>cout = [], mut = None, vec = [5]\<rparr> =
     Returns \<lparr>cout = [], mut = None, vec = [5, 7]\<rparr> \<and>
   push_back False 0 7 \<lparr>cout = [], mut = None, vec = [5]\<rparr> =
     Throws bad_alloc \<lparr>cout = [], mut = Some 0, vec = [5]\<rparr> \<and>
   push_back True 0 7 \<lparr>cout = [], mut = Some 1, vec = [5]\<rparr> = Blocks"
  using push_back_exits[of True 0 7 "\<lparr>cout = [], mut = None, vec = [5]\<rparr>"]
    push_back_exits[of False 0 7 "\<lparr>cout = [], mut = None, vec = [5]\<rparr>"]
    push_back_exits[of True 0 7 "\<lparr>cout = [], mut = Some 1, vec = [5]\<rparr>"]
  by simp

text \<open>
  C3. No lost updates: for every list of thread functions (each any finite sequence of
  calls of \<^verbatim>\<open>push_back\<close>, \<^verbatim>\<open>print\<close> and sleeps) and every schedule, when \<^verbatim>\<open>main\<close> has
  joined all threads and returned, the sequence has as many elements as there were calls
  of \<^verbatim>\<open>push_back\<close>, and it holds the appended values with exactly their multiplicities.
\<close>

theorem no_lost_updates:
  assumes "exec vector_step sched (vector_init progs) = Some s" "main_pc s = Exited r"
  shows "length (vec (shared s)) = length (concat (map pushes progs)) \<and>
         mset (vec (shared s)) = mset (concat (map pushes progs))"
proof (intro conjI)
  from exited_interl[OF assms] have i: "interl (map pushes progs) (vec (shared s))" .
  from interl_length[OF i] show "length (vec (shared s)) = length (concat (map pushes progs))" .
  from interl_mset[OF i] show "mset (vec (shared s)) = mset (concat (map pushes progs))" .
qed

theorem no_lost_updates_witness:
  "exec vector_step (sched2_pre @ ((Thread 0, True) # sched2_mid) @ sched2_post) (vector_init progs2) =
     Some state2_final \<and>
   main_pc state2_final = Exited 0 \<and>
   length (vec (shared state2_final)) = length (concat (map pushes progs2)) \<and>
   mset (vec (shared state2_final)) = mset (concat (map pushes progs2))"
proof -
  have pc: "main_pc state2_final = Exited 0" by (simp add: state2_final_def)
  from no_lost_updates[OF run2_all pc] run2_all pc show ?thesis by simp
qed

text \<open>
  C4. The program of \<^verbatim>\<open>main\<close>: three threads run \<^verbatim>\<open>func\<close> on one Vector. Under every
  schedule, when \<^verbatim>\<open>main\<close> has joined the threads and returned, the vector holds 15
  elements, and it is an interleaving of three copies of 0, 1, 2, 3, 4: it splits into
  one subsequence per thread, each being that thread's values in the order 0, 1, 2, 3, 4.
\<close>

theorem three_workers_final_vector:
  assumes "vector_program sched = Some s" "main_pc s = Exited r"
  shows "length (vec (shared s)) = 15 \<and>
         interl [[0, 1, 2, 3, 4], [0, 1, 2, 3, 4], [0, 1, 2, 3, 4]] (vec (shared s))"
proof -
  from exited_interl[OF assms(1)[unfolded vector_program_def] assms(2)]
  have i: "interl [[0, 1, 2, 3, 4], [0, 1, 2, 3, 4], [0, 1, 2, 3, 4]] (vec (shared s))"
    by (simp add: pushes_func)
  from interl_length[OF i] i show ?thesis by simp
qed

theorem three_workers_final_vector_witness:
  "vector_program sched_serial = Some state_serial \<and> main_pc state_serial = Exited 0 \<and>
   length (vec (shared state_serial)) = 15 \<and>
   interl [[0, 1, 2, 3, 4], [0, 1, 2, 3, 4], [0, 1, 2, 3, 4]] (vec (shared state_serial))"
proof -
  have pc: "main_pc state_serial = Exited 0" by (simp add: state_serial_def)
  from three_workers_final_vector[OF run_serial pc] run_serial pc show ?thesis by simp
qed

text \<open>
  C5. A call of \<^verbatim>\<open>print\<close> emits a snapshot. Take any reachable state \<open>s0\<close> in which
  thread \<open>t\<close> is about to call \<^verbatim>\<open>print\<close>, let it acquire the mutex there, and let the
  program run on under any schedule until \<open>t\<close> has written its \<^verbatim>\<open>std::endl\<close>. Then what
  was added to the output since the mutex was acquired is exactly the rendering of the
  sequence as it was at that moment, in one piece. At that moment no call of
  \<^verbatim>\<open>push_back\<close> was in progress (every thread was between two calls), and the sequence
  held exactly the values of the calls of \<^verbatim>\<open>push_back\<close> made so far: with the values of
  the calls still to come, in any interleaving, it gives an interleaving of all the
  values of the thread functions (\<open>push_inv\<close>). And the snapshot is a prefix of the
  sequence of every later state.
\<close>

theorem print_snapshot:
  assumes "exec vector_step pre (vector_init progs) = Some s0"
    and "t < length (threads s0)"
    and "threads s0 ! t = \<lparr>todo = Print # cs, wpc = Idle\<rparr>"
    and "exec vector_step ((Thread t, ok) # mid) s0 = Some s2"
    and "threads s2 ! t = \<lparr>todo = cs, wpc = PrintUnlock\<rparr>"
    and "exec vector_step post s2 = Some s3"
  shows "cout (shared s2) = cout (shared s0) @ render (vec (shared s0)) @ endl \<and>
         list_all (\<lambda>w. wpc w = Idle) (threads s0) \<and> push_inv progs s0 \<and>
         prefix (vec (shared s0)) (vec (shared s3))"
proof -
  from vector_reachable[OF assms(1)] have lk: "lock_inv s0" and pu: "aborted s0 \<or> push_inv progs s0"
    by (simp_all add: vector_inv_def)
  note S = print_call_snapshot[OF lk assms(2-5)]
  from assms(4) have "\<not> aborted s0"
    by (cases "vector_step (Thread t, ok) s0") (simp_all add: vector_step_def split: if_splits)
  with pu have "push_inv progs s0" by simp
  moreover have "list_all (\<lambda>w. wpc w = Idle) (threads s0)"
    using S(3) by (auto simp: list_all_iff in_set_conv_nth)
  moreover have "prefix (vec (shared s0)) (vec (shared s3))"
    using vec_prefix_exec[OF assms(6) lock_inv_exec[OF assms(4) lk]] S(2) by simp
  ultimately show ?thesis using S(1) by simp
qed

theorem print_snapshot_witness:
  "exec vector_step sched2_pre (vector_init progs2) = Some state2_pre \<and>
   0 < length (threads state2_pre) \<and>
   threads state2_pre ! 0 = \<lparr>todo = Print # [], wpc = Idle\<rparr> \<and>
   exec vector_step ((Thread 0, True) # sched2_mid) state2_pre = Some state2_mid \<and>
   threads state2_mid ! 0 = \<lparr>todo = [], wpc = PrintUnlock\<rparr> \<and>
   exec vector_step sched2_post state2_mid = Some state2_final \<and>
   cout (shared state2_mid) = cout (shared state2_pre) @ render (vec (shared state2_pre)) @ endl \<and>
   list_all (\<lambda>w. wpc w = Idle) (threads state2_pre) \<and> push_inv progs2 state2_pre \<and>
   prefix (vec (shared state2_pre)) (vec (shared state2_final))"
proof -
  have h2: "0 < length (threads state2_pre)"
    and h3: "threads state2_pre ! 0 = \<lparr>todo = Print # [], wpc = Idle\<rparr>"
    by (simp_all add: state2_pre_def)
  have h5: "threads state2_mid ! 0 = \<lparr>todo = [], wpc = PrintUnlock\<rparr>"
    by (simp add: state2_mid_def)
  from print_snapshot[OF run2_pre h2 h3 run2_mid h5 run2_post] run2_pre h2 h3 run2_mid h5 run2_post
  show ?thesis by simp
qed

text \<open>
  C6. The emission of \<^verbatim>\<open>print\<close> is inside the critical section. In every reachable
  state in which a thread \<open>t\<close> is inside \<^verbatim>\<open>print\<close> (at the loop test, holding an element
  it has read and not yet written, before \<^verbatim>\<open>std::endl\<close> or before the unlock), \<open>t\<close> owns
  the mutex; the element it holds is still the element of the sequence at the position
  it was read from; every other thread is between two calls, and whatever step another
  thread can take leaves the sequence and the output unchanged. So no \<^verbatim>\<open>push_back\<close>
  executes between the read of an element and its emission.
\<close>

theorem print_emission_under_lock:
  assumes "exec vector_step sched (vector_init progs) = Some s"
    and "t < length (threads s)" and "in_print (wpc (threads s ! t))"
  shows "mut (shared s) = Some t \<and> local_ok (wpc (threads s ! t)) (vec (shared s)) \<and>
         (\<forall>u<length (threads s). u \<noteq> t \<longrightarrow>
            wpc (threads s ! u) = Idle \<and>
            (\<forall>ok s'. vector_step (Thread u, ok) s = Some s' \<longrightarrow> shared s' = shared s))"
proof -
  from vector_reachable[OF assms(1)] have lk: "lock_inv s" by (simp add: vector_inv_def)
  from assms(3) have nid: "wpc (threads s ! t) \<noteq> Idle" by (auto simp: in_print_def)
  have own: "mut (shared s) = Some t" using lock_invD(1)[OF lk assms(2) nid] .
  have "shared s' = shared s"
    if u: "u < length (threads s)" "u \<noteq> t" and st: "vector_step (Thread u, ok) s = Some s'" for u ok s'
  proof -
    from st obtain w' sh' where fs: "func_step ok u (threads s ! u) (shared s) = Some (w', sh')"
      and s': "s' = s\<lparr>shared := sh', threads := (threads s)[u := w']\<rparr>"
      by (rule vector_step_thread)
    from func_step_idle_locked[OF fs others_idle[OF lk assms(2) nid u]] own show ?thesis
      by (simp add: s')
  qed
  with own lock_invD(3)[OF lk assms(2)] others_idle[OF lk assms(2) nid] show ?thesis by blast
qed

theorem print_emission_under_lock_witness:
  "exec vector_step (sched2_pre @ [(Thread 0, True)]) (vector_init progs2) = Some state2_locked \<and>
   0 < length (threads state2_locked) \<and> in_print (wpc (threads state2_locked ! 0)) \<and>
   mut (shared state2_locked) = Some 0 \<and>
   local_ok (wpc (threads state2_locked ! 0)) (vec (shared state2_locked)) \<and>
   wpc (threads state2_locked ! 1) = Idle \<and>
   vector_step (Thread 1, True) state2_locked = Some state2_slept \<and>
   shared state2_slept = shared state2_locked"
proof -
  have h2: "0 < length (threads state2_locked)"
    and h3: "in_print (wpc (threads state2_locked ! 0))"
    and u: "1 < length (threads state2_locked)"
    by (simp_all add: state2_locked_def in_print_def)
  note T = print_emission_under_lock[OF run2_locked h2 h3]
  from T have 1: "mut (shared state2_locked) = Some 0"
    and 2: "local_ok (wpc (threads state2_locked ! 0)) (vec (shared state2_locked))" by blast+
  from T u have 3: "wpc (threads state2_locked ! 1) = Idle" by auto
  from T u run2_sleep have 4: "shared state2_slept = shared state2_locked" by auto
  from run2_locked h2 h3 1 2 3 4 run2_sleep show ?thesis by blast
qed

text \<open>
  C7. For every state of the container, \<^verbatim>\<open>print\<close> (once the mutex is free) writes the
  whole sequence in order, each element in decimal followed by \<^verbatim>\<open>", "\<close>, and then a
  newline. So the text is the elements joined by the separator \<^verbatim>\<open>", "\<close>, which stands
  between any two consecutive elements, with one more separator after the last element.
\<close>

theorem print_emits_sequence:
  "Vector_print t sh =
     (if mut sh = None then Returns (sh\<lparr>cout := cout sh @ render (vec sh) @ endl\<rparr>) else Blocks) \<and>
   render (vec sh) = (if vec sh = [] then [] else join '', '' (map show_int (vec sh)) @ '', '')"
proof (intro conjI)
  show "Vector_print t sh =
     (if mut sh = None then Returns (sh\<lparr>cout := cout sh @ render (vec sh) @ endl\<rparr>) else Blocks)"
    by (rule Vector_print_eq)
  show "render (vec sh) = (if vec sh = [] then [] else join '', '' (map show_int (vec sh)) @ '', '')"
    by (rule render_join)
qed

theorem print_emits_sequence_witness:
  "Vector_print 0 \<lparr>cout = [], mut = None, vec = [0, 1, 2]\<rparr> =
     Returns \<lparr>cout = ''0, 1, 2, '' @ endl, mut = None, vec = [0, 1, 2]\<rparr> \<and>
   render [0, 1, 2] = join '', '' [''0'', ''1'', ''2''] @ '', ''"
proof -
  have r: "render [0, 1, 2] = ''0, 1, 2, ''" by code_simp
  have j: "map show_int [0, 1, 2] = [''0'', ''1'', ''2'']" by code_simp
  from print_emits_sequence[of 0 "\<lparr>cout = [], mut = None, vec = [0, 1, 2]\<rparr>"] r j
  show ?thesis by simp
qed

text \<open>
  C8. Whenever \<^verbatim>\<open>main\<close> returns, under any schedule, the exit status is 0: in
  unscrambled.cpp and scrambled.cpp (\<^verbatim>\<open>return 0\<close>) and in the Vector program (the end of
  \<^verbatim>\<open>main\<close>). No statement of the three programs sets another status. (A thread left
  by an exception aborts the process; \<^verbatim>\<open>main\<close> does not return then.)
\<close>

theorem exit_status_zero:
  "(exec (sink_step unscrambled_printString) sched1 (sink_init msgs1) = Some s1 \<longrightarrow>
      main_pc s1 = Exited r1 \<longrightarrow> r1 = 0) \<and>
   (exec (sink_step scrambled_printString) sched2 (sink_init msgs2) = Some s2 \<longrightarrow>
      main_pc s2 = Exited r2 \<longrightarrow> r2 = 0) \<and>
   (exec vector_step sched3 (vector_init progs) = Some s3 \<longrightarrow>
      main_pc s3 = Exited r3 \<longrightarrow> r3 = 0)"
proof (intro conjI impI)
  assume "exec (sink_step unscrambled_printString) sched1 (sink_init msgs1) = Some s1"
  then have "exit_ok s1" using exit_ok_init(1) exit_ok_sink_step by (rule exec_invariant)
  moreover assume "main_pc s1 = Exited r1"
  ultimately show "r1 = 0" by (rule exit_okD)
next
  assume "exec (sink_step scrambled_printString) sched2 (sink_init msgs2) = Some s2"
  then have "exit_ok s2" using exit_ok_init(1) exit_ok_sink_step by (rule exec_invariant)
  moreover assume "main_pc s2 = Exited r2"
  ultimately show "r2 = 0" by (rule exit_okD)
next
  assume "exec vector_step sched3 (vector_init progs) = Some s3"
  then have "exit_ok s3" using exit_ok_init(2) exit_ok_vector_step by (rule exec_invariant)
  moreover assume "main_pc s3 = Exited r3"
  ultimately show "r3 = 0" by (rule exit_okD)
qed

theorem exit_status_zero_witness:
  "exec (sink_step unscrambled_printString) sched_123 (sink_init messages) = Some final_123 \<and>
   main_pc final_123 = Exited 0 \<and>
   exec (sink_step scrambled_printString) sched_mixed (sink_init messages) = Some final_mixed \<and>
   main_pc final_mixed = Exited 0 \<and>
   exec vector_step sched_serial (vector_init [func, func, func]) = Some state_serial \<and>
   main_pc state_serial = Exited 0"
proof -
  have 1: "exec (sink_step unscrambled_printString) sched_123 (sink_init messages) = Some final_123"
    using run_123 by (simp add: unscrambled_def)
  have 2: "exec (sink_step scrambled_printString) sched_mixed (sink_init messages) = Some final_mixed"
    using scrambled_interleaves by (simp add: scrambled_def)
  have 3: "exec vector_step sched_serial (vector_init [func, func, func]) = Some state_serial"
    using run_serial by (simp add: vector_program_def)
  have p: "main_pc final_123 = Exited 0" "main_pc final_mixed = Exited 0" "main_pc state_serial = Exited 0"
    by (simp_all add: final_123_def final_mixed_def state_serial_def)
  from exit_status_zero[of sched_123 messages final_123 0 sched_mixed messages final_mixed 0
      sched_serial "[func, func, func]" state_serial 0] 1 2 3 p
  show ?thesis by simp
qed

text \<open>
  C9. A call of \<^verbatim>\<open>print\<close> leaves the sequence as it was. Run to its end on a free mutex,
  it returns with the same sequence and the mutex free again. And among other threads,
  under any schedule: from the state in which a thread acquires the mutex in \<^verbatim>\<open>print\<close>
  to the state after it has released it, the sequence is unchanged (length, elements and
  order) and the mutex is free as before.
\<close>

theorem print_leaves_sequence:
  "(Vector_print t sh = Returns sh' \<longrightarrow> vec sh' = vec sh \<and> mut sh' = mut sh) \<and>
   (exec vector_step pre (vector_init progs) = Some s0 \<longrightarrow>
    u < length (threads s0) \<longrightarrow>
    threads s0 ! u = \<lparr>todo = Print # cs, wpc = Idle\<rparr> \<longrightarrow>
    exec vector_step ((Thread u, ok) # mid) s0 = Some s2 \<longrightarrow>
    threads s2 ! u = \<lparr>todo = cs, wpc = PrintUnlock\<rparr> \<longrightarrow>
    vector_step (Thread u, ok') s2 = Some s3 \<longrightarrow>
    vec (shared s3) = vec (shared s0) \<and> mut (shared s3) = mut (shared s0))"
proof (intro conjI impI)
  assume "Vector_print t sh = Returns sh'"
  then have "mut sh = None" "sh' = sh\<lparr>cout := cout sh @ render (vec sh) @ endl\<rparr>"
    by (simp_all add: Vector_print_eq split: if_splits)
  then show "vec sh' = vec sh" "mut sh' = mut sh" by simp_all
next
  assume reach: "exec vector_step pre (vector_init progs) = Some s0"
    and u: "u < length (threads s0)"
    and w: "threads s0 ! u = \<lparr>todo = Print # cs, wpc = Idle\<rparr>"
    and run: "exec vector_step ((Thread u, ok) # mid) s0 = Some s2"
    and fin: "threads s2 ! u = \<lparr>todo = cs, wpc = PrintUnlock\<rparr>"
    and st: "vector_step (Thread u, ok') s2 = Some s3"
  from vector_reachable[OF reach] have lk: "lock_inv s0" by (simp add: vector_inv_def)
  note S = print_call_snapshot[OF lk u w run fin]
  from st obtain w' sh' where fs: "func_step ok' u (threads s2 ! u) (shared s2) = Some (w', sh')"
    and s3: "s3 = s2\<lparr>shared := sh', threads := (threads s2)[u := w']\<rparr>"
    by (rule vector_step_thread)
  from fs have "sh' = (shared s2)\<lparr>mut := None\<rparr>"
    by (cases rule: func_step_cases) (simp_all add: fin)
  with S(2,4) show "vec (shared s3) = vec (shared s0)" "mut (shared s3) = mut (shared s0)"
    by (simp_all add: s3)
qed

theorem print_leaves_sequence_witness:
  "Vector_print 0 \<lparr>cout = [], mut = None, vec = [0, 1, 2]\<rparr> =
     Returns \<lparr>cout = ''0, 1, 2, '' @ endl, mut = None, vec = [0, 1, 2]\<rparr> \<and>
   exec vector_step sched2_pre (vector_init progs2) = Some state2_pre \<and>
   0 < length (threads state2_pre) \<and>
   threads state2_pre ! 0 = \<lparr>todo = Print # [], wpc = Idle\<rparr> \<and>
   exec vector_step ((Thread 0, True) # sched2_mid) state2_pre = Some state2_mid \<and>
   threads state2_mid ! 0 = \<lparr>todo = [], wpc = PrintUnlock\<rparr> \<and>
   vector_step (Thread 0, True) state2_mid = Some state2_unlocked \<and>
   vec (shared state2_unlocked) = vec (shared state2_pre) \<and>
   mut (shared state2_unlocked) = mut (shared state2_pre)"
proof -
  have h0: "Vector_print 0 \<lparr>cout = [], mut = None, vec = [0, 1, 2]\<rparr> =
     Returns \<lparr>cout = ''0, 1, 2, '' @ endl, mut = None, vec = [0, 1, 2]\<rparr>"
    by code_simp
  have h2: "0 < length (threads state2_pre)"
    and h3: "threads state2_pre ! 0 = \<lparr>todo = Print # [], wpc = Idle\<rparr>"
    by (simp_all add: state2_pre_def)
  have h5: "threads state2_mid ! 0 = \<lparr>todo = [], wpc = PrintUnlock\<rparr>"
    by (simp add: state2_mid_def)
  from print_leaves_sequence[of 0 "\<lparr>cout = [], mut = None, vec = [0, 1, 2]\<rparr>"
      "\<lparr>cout = ''0, 1, 2, '' @ endl, mut = None, vec = [0, 1, 2]\<rparr>"
      sched2_pre progs2 state2_pre 0 "[]" True sched2_mid state2_mid True state2_unlocked]
    h0 run2_pre h2 h3 run2_mid h5 run2_unlock
  show ?thesis by simp
qed

lemma run2_first: "exec vector_step sched2_first (vector_init progs2) = Some state2_first"
  by code_simp

lemma run2_second: "exec vector_step sched2_second state2_first = Some state2_pre"
  by code_simp

text \<open>
  C10. The sequence only grows, at its end. \<^verbatim>\<open>push_back(i)\<close> that returns has appended
  \<open>i\<close> after the elements already stored, which keep their positions; a \<^verbatim>\<open>push_back\<close>
  left by an exception and a \<^verbatim>\<open>print\<close> leave the sequence as it was; and along every
  execution of the program, under any schedule, the sequence of an earlier state is a
  prefix of the sequence of every later state: no element is ever removed or moved.
\<close>

theorem sequence_only_grows:
  "(push_back ok1 t1 i1 sha = Returns sh1 \<longrightarrow> vec sh1 = vec sha @ [i1]) \<and>
   (push_back ok2 t2 i2 shb = Throws e sh2 \<longrightarrow> vec sh2 = vec shb) \<and>
   (Vector_print t3 shc = Returns sh3 \<longrightarrow> vec sh3 = vec shc) \<and>
   (exec vector_step sched (vector_init progs) = Some s \<longrightarrow>
    exec vector_step sched' s = Some s' \<longrightarrow>
    prefix (vec (shared s)) (vec (shared s')))"
proof (intro conjI impI)
  assume "push_back ok1 t1 i1 sha = Returns sh1"
  then show "vec sh1 = vec sha @ [i1]" by (auto simp: push_back_eq split: if_splits)
next
  assume "push_back ok2 t2 i2 shb = Throws e sh2"
  then show "vec sh2 = vec shb" by (auto simp: push_back_eq split: if_splits)
next
  assume "Vector_print t3 shc = Returns sh3"
  then show "vec sh3 = vec shc" by (auto simp: Vector_print_eq split: if_splits)
next
  assume "exec vector_step sched (vector_init progs) = Some s"
  then have "lock_inv s" using vector_reachable by (simp add: vector_inv_def)
  moreover assume "exec vector_step sched' s = Some s'"
  ultimately show "prefix (vec (shared s)) (vec (shared s'))" by (intro vec_prefix_exec)
qed

theorem sequence_only_grows_witness:
  "push_back True 0 7 \<lparr>cout = [], mut = None, vec = [5]\<rparr> =
     Returns \<lparr>cout = [], mut = None, vec = [5, 7]\<rparr> \<and>
   vec \<lparr>cout = [], mut = None, vec = [5, 7]\<rparr> = vec \<lparr>cout = [], mut = None, vec = [5]\<rparr> @ [7] \<and>
   push_back False 0 7 \<lparr>cout = [], mut = None, vec = [5]\<rparr> =
     Throws bad_alloc \<lparr>cout = [], mut = Some 0, vec = [5]\<rparr> \<and>
   Vector_print 0 \<lparr>cout = [], mut = None, vec = [5]\<rparr> =
     Returns \<lparr>cout = ''5, '' @ endl, mut = None, vec = [5]\<rparr> \<and>
   exec vector_step sched2_first (vector_init progs2) = Some state2_first \<and>
   exec vector_step sched2_second state2_first = Some state2_pre \<and>
   prefix (vec (shared state2_first)) (vec (shared state2_pre))"
proof -
  have a: "push_back True 0 7 \<lparr>cout = [], mut = None, vec = [5]\<rparr> =
     Returns \<lparr>cout = [], mut = None, vec = [5, 7]\<rparr>" by code_simp
  have b: "push_back False 0 7 \<lparr>cout = [], mut = None, vec = [5]\<rparr> =
     Throws bad_alloc \<lparr>cout = [], mut = Some 0, vec = [5]\<rparr>" by code_simp
  have c: "Vector_print 0 \<lparr>cout = [], mut = None, vec = [5]\<rparr> =
     Returns \<lparr>cout = ''5, '' @ endl, mut = None, vec = [5]\<rparr>" by code_simp
  from sequence_only_grows[of True 0 7 "\<lparr>cout = [], mut = None, vec = [5]\<rparr>"
      "\<lparr>cout = [], mut = None, vec = [5, 7]\<rparr>"
      False 0 7 "\<lparr>cout = [], mut = None, vec = [5]\<rparr>" bad_alloc
      "\<lparr>cout = [], mut = Some 0, vec = [5]\<rparr>"
      0 "\<lparr>cout = [], mut = None, vec = [5]\<rparr>"
      "\<lparr>cout = ''5, '' @ endl, mut = None, vec = [5]\<rparr>" sched2_first progs2 state2_first
      sched2_second state2_pre]
    a b c run2_first run2_second
  show ?thesis by simp
qed

end
